theory Spec2Isabelle
  imports Main
begin

section \<open>Memory model\<close>

text \<open>
  The container of \<^verbatim>\<open>binarytree.hpp\<close> is a pointer structure, and several of its
  operations depend on pointer identity (\<^verbatim>\<open>this != &other\<close>, \<^verbatim>\<open>ancestor != node\<close>)
  and on which nodes are allocated.  The model therefore has an explicit store:
  nodes live at addresses, tree objects live at object locations, and every
  operation transforms the whole store.

  A pointer \<^verbatim>\<open>Node*\<close> is an \<open>addr option\<close>; \<^verbatim>\<open>nullptr\<close> is \<open>None\<close>.
\<close>

type_synonym addr = nat
type_synonym oid = nat

text \<open>\<^verbatim>\<open>struct Node { T data; Node* left; Node* right; }\<close>\<close>

record 'a Node =
  data :: 'a
  left :: "addr option"
  right :: "addr option"

text \<open>
  \<^verbatim>\<open>class BinaryTree { Node* root; Compare compare; Equal equal; size_t node_count; }\<close>.
  The two functors are the relations they compute.  \<^verbatim>\<open>size_t\<close> can count every
  byte of the address space and a node occupies more than one byte, so the
  counter cannot wrap while the nodes it counts exist; it is a natural number.
\<close>

record 'a BinaryTree =
  root :: "addr option"
  compare :: "'a \<Rightarrow> 'a \<Rightarrow> bool"
  equal :: "'a \<Rightarrow> 'a \<Rightarrow> bool"
  node_count :: nat

text \<open>
  The store.  \<open>cells\<close> holds the allocated nodes, \<open>objs\<close> the live tree objects.
  \<open>fresh\<close> is the next address \<^verbatim>\<open>new\<close> hands out (addresses are not reused, so
  a dangling pointer stays recognisable), and \<open>avail\<close> is the number of
  allocations that will still succeed before \<^verbatim>\<open>new\<close> throws \<^verbatim>\<open>std::bad_alloc\<close>.
\<close>

record 'a world =
  cells :: "addr \<Rightarrow> 'a Node option"
  fresh :: addr
  avail :: nat
  objs :: "oid \<Rightarrow> 'a BinaryTree option"

text \<open>
  The exceptions of the program: the \<^verbatim>\<open>std::runtime_error\<close> thrown on a duplicate
  insertion, and \<^verbatim>\<open>std::bad_alloc\<close> from \<^verbatim>\<open>new\<close>.  Both derive from
  \<^verbatim>\<open>std::exception\<close>, which is what every handler of the source catches.
\<close>

datatype exn = runtime_error | bad_alloc

text \<open>
  What a call does: it returns a value in a new store, or it throws in a new
  store (whatever was mutated before the \<^verbatim>\<open>throw\<close> stays mutated), or it has
  undefined behaviour (a null, dangling or wild pointer is dereferenced).  A
  call that does not return at all is \<open>None\<close>: every operation has type
  \<open>\<dots> \<Rightarrow> ('r, 's) outcome option\<close>.
\<close>

datatype ('r, 's) outcome = Return 'r 's | Throw exn 's | Undefined

definition then_do ::
  "('r, 's) outcome option \<Rightarrow> ('r \<Rightarrow> 's \<Rightarrow> ('q, 's) outcome option) \<Rightarrow> ('q, 's) outcome option"
where
  "then_do m f =
     Option.bind m (\<lambda>r. case r of
         Return x s \<Rightarrow> f x s
       | Throw e s \<Rightarrow> Some (Throw e s)
       | Undefined \<Rightarrow> Some Undefined)"

text \<open>\<^verbatim>\<open>try { m } catch (std::exception& e) { h }\<close>\<close>

definition try_catch ::
  "('r, 's) outcome option \<Rightarrow> (exn \<Rightarrow> 's \<Rightarrow> ('r, 's) outcome option) \<Rightarrow> ('r, 's) outcome option"
where
  "try_catch m h =
     Option.bind m (\<lambda>r. case r of
         Return x s \<Rightarrow> Some (Return x s)
       | Throw e s \<Rightarrow> h e s
       | Undefined \<Rightarrow> Some Undefined)"

text \<open>
  The recursive functions of the source are defined below as partial functions
  (a call that does not terminate has no outcome).  Such a definition is
  accepted when its body is monotone in the recursive call; sequencing is.
\<close>

lemma then_do_mono [partial_function_mono]:
  assumes "mono_option B" and "\<And>x s. mono_option (\<lambda>f. C x s f)"
  shows "mono_option (\<lambda>f. then_do (B f) (\<lambda>x s. C x s f))"
  unfolding then_do_def
  apply (rule bind_mono)
   apply (rule assms)
  subgoal for y by (cases y) (simp_all add: assms option.const_mono)
  done

text \<open>
  \<^verbatim>\<open>new Node(value)\<close>: the constructor sets both children to \<^verbatim>\<open>nullptr\<close>.  The
  result is the address of the new node, never null.
\<close>

definition new_Node :: "'a \<Rightarrow> 'a world \<Rightarrow> (addr, 'a world) outcome option" where
  "new_Node v w =
     (if avail w = 0 then Some (Throw bad_alloc w)
      else Some (Return (fresh w)
             (w\<lparr>cells := (cells w)(fresh w \<mapsto> \<lparr>data = v, left = None, right = None\<rparr>),
                fresh := fresh w + 1,
                avail := avail w - 1\<rparr>)))"

text \<open>\<^verbatim>\<open>delete node\<close>: deleting what is not allocated is undefined behaviour.\<close>

definition delete_Node :: "addr \<Rightarrow> 'a world \<Rightarrow> (unit, 'a world) outcome option" where
  "delete_Node a w =
     (case cells w a of
        None \<Rightarrow> Some Undefined
      | Some n \<Rightarrow> Some (Return () (w\<lparr>cells := (cells w)(a := None)\<rparr>)))"

text \<open>Field access through a pointer or an object location; what is not there cannot be read.\<close>

definition get_node :: "addr option \<Rightarrow> 'a world \<Rightarrow> ('a Node, 'a world) outcome option" where
  "get_node p w =
     (case p of
        None \<Rightarrow> Some Undefined
      | Some a \<Rightarrow> (case cells w a of None \<Rightarrow> Some Undefined | Some n \<Rightarrow> Some (Return n w)))"

definition get_obj :: "oid \<Rightarrow> 'a world \<Rightarrow> ('a BinaryTree, 'a world) outcome option" where
  "get_obj i w = (case objs w i of None \<Rightarrow> Some Undefined | Some t \<Rightarrow> Some (Return t w))"

definition set_left :: "addr \<Rightarrow> addr option \<Rightarrow> 'a world \<Rightarrow> (unit, 'a world) outcome option" where
  "set_left a p w =
     (case cells w a of
        None \<Rightarrow> Some Undefined
      | Some n \<Rightarrow> Some (Return () (w\<lparr>cells := (cells w)(a \<mapsto> n\<lparr>left := p\<rparr>)\<rparr>)))"

definition set_right :: "addr \<Rightarrow> addr option \<Rightarrow> 'a world \<Rightarrow> (unit, 'a world) outcome option" where
  "set_right a p w =
     (case cells w a of
        None \<Rightarrow> Some Undefined
      | Some n \<Rightarrow> Some (Return () (w\<lparr>cells := (cells w)(a \<mapsto> n\<lparr>right := p\<rparr>)\<rparr>)))"

definition set_root :: "oid \<Rightarrow> addr option \<Rightarrow> 'a world \<Rightarrow> (unit, 'a world) outcome option" where
  "set_root i p w =
     (case objs w i of
        None \<Rightarrow> Some Undefined
      | Some t \<Rightarrow> Some (Return () (w\<lparr>objs := (objs w)(i \<mapsto> t\<lparr>root := p\<rparr>)\<rparr>)))"

definition set_node_count :: "oid \<Rightarrow> nat \<Rightarrow> 'a world \<Rightarrow> (unit, 'a world) outcome option" where
  "set_node_count i k w =
     (case objs w i of
        None \<Rightarrow> Some Undefined
      | Some t \<Rightarrow> Some (Return () (w\<lparr>objs := (objs w)(i \<mapsto> t\<lparr>node_count := k\<rparr>)\<rparr>)))"

text \<open>
  What a \<^verbatim>\<open>Node*&\<close> parameter can be bound to: the \<^verbatim>\<open>root\<close> member of a tree object or
  a child member of a node.
\<close>

datatype ref = RootRef oid | LeftRef addr | RightRef addr

fun store_ref :: "ref \<Rightarrow> addr option \<Rightarrow> 'a world \<Rightarrow> (unit, 'a world) outcome option" where
  "store_ref (RootRef i) p w = set_root i p w"
| "store_ref (LeftRef a) p w = set_left a p w"
| "store_ref (RightRef a) p w = set_right a p w"

text \<open>
  What has been written to a \<^verbatim>\<open>std::ostream\<close>: the sequence of inserted items.  How an
  element prints is the element type's own \<^verbatim>\<open>operator<<\<close>, so an element is recorded
  as itself.
\<close>

datatype 'a item = Val 'a | Text string | Endl

section \<open>The private recursive operations\<close>

text \<open>
  \<^verbatim>\<open>Node* insert(Node* node, const T& value)\<close>, lines 47--60.  \<open>this\<close> is the
  location of the tree object whose member function runs.  The counter is
  incremented before \<^verbatim>\<open>new\<close> runs, as in the source.
\<close>

partial_function (option) insert_node ::
  "oid \<Rightarrow> addr option \<Rightarrow> 'a \<Rightarrow> 'a world \<Rightarrow> (addr option, 'a world) outcome option"
where
  "insert_node this node v w =
     (case node of
        None \<Rightarrow>
          then_do (get_obj this w) (\<lambda>t _.
          then_do (new_Node v (w\<lparr>objs := (objs w)(this \<mapsto> t\<lparr>node_count := node_count t + 1\<rparr>)\<rparr>))
            (\<lambda>a w1. Some (Return (Some a) w1)))
      | Some a \<Rightarrow>
          then_do (get_obj this w) (\<lambda>t _.
          then_do (get_node node w) (\<lambda>n _.
            if equal t v (data n) then Some (Throw runtime_error w)
            else if compare t v (data n) then
              then_do (insert_node this (left n) v w) (\<lambda>p w1.
              then_do (set_left a p w1) (\<lambda>_ w2. Some (Return node w2)))
            else
              then_do (insert_node this (right n) v w) (\<lambda>p w1.
              then_do (set_right a p w1) (\<lambda>_ w2. Some (Return node w2))))))"

text \<open>\<^verbatim>\<open>bool exists(Node* node, const T& value) const\<close>, lines 70--82.\<close>

partial_function (option) exists_node ::
  "oid \<Rightarrow> addr option \<Rightarrow> 'a \<Rightarrow> 'a world \<Rightarrow> (bool, 'a world) outcome option"
where
  "exists_node this node v w =
     (case node of
        None \<Rightarrow> Some (Return False w)
      | Some a \<Rightarrow>
          then_do (get_obj this w) (\<lambda>t _.
          then_do (get_node node w) (\<lambda>n _.
            if equal t (data n) v then Some (Return True w)
            else if compare t v (data n) then exists_node this (left n) v w
            else exists_node this (right n) v w)))"

text \<open>\<^verbatim>\<open>Node* find_subtree(Node* node, const T& value) const\<close>, lines 91--103.\<close>

partial_function (option) find_subtree ::
  "oid \<Rightarrow> addr option \<Rightarrow> 'a \<Rightarrow> 'a world \<Rightarrow> (addr option, 'a world) outcome option"
where
  "find_subtree this node v w =
     (case node of
        None \<Rightarrow> Some (Return None w)
      | Some a \<Rightarrow>
          then_do (get_obj this w) (\<lambda>t _.
          then_do (get_node node w) (\<lambda>n _.
            if equal t (data n) v then Some (Return node w)
            else if compare t v (data n) then find_subtree this (left n) v w
            else find_subtree this (right n) v w)))"

text \<open>
  \<^verbatim>\<open>void print_in_order(Node* node, std::ostream& os) const\<close>, lines 111--118.  The
  stream is passed in and handed back.
\<close>

partial_function (option) print_in_order ::
  "addr option \<Rightarrow> 'a item list \<Rightarrow> 'a world \<Rightarrow> ('a item list, 'a world) outcome option"
where
  "print_in_order node os w =
     (case node of
        None \<Rightarrow> Some (Return os w)
      | Some a \<Rightarrow>
          then_do (get_node node w) (\<lambda>n _.
          then_do (print_in_order (left n) os w) (\<lambda>os1 w1.
          then_do (get_node node w1) (\<lambda>n1 _.
          print_in_order (right n1) (os1 @ [Val (data n1), Text '' '']) w1))))"

text \<open>\<^verbatim>\<open>void destroy_tree(Node* node)\<close>, lines 125--132.\<close>

partial_function (option) destroy_tree ::
  "addr option \<Rightarrow> 'a world \<Rightarrow> (unit, 'a world) outcome option"
where
  "destroy_tree node w =
     (case node of
        None \<Rightarrow> Some (Return () w)
      | Some a \<Rightarrow>
          then_do (get_node node w) (\<lambda>n _.
          then_do (destroy_tree (left n) w) (\<lambda>_ w1.
          then_do (get_node node w1) (\<lambda>n1 _.
          then_do (destroy_tree (right n1) w1) (\<lambda>_ w2.
          delete_Node a w2)))))"

text \<open>
  \<^verbatim>\<open>void copy_subtree(Node*& dest, Node* src) const\<close>, lines 140--151.  \<open>dest\<close> is
  assigned as soon as the node is allocated, before the children are copied.
\<close>

partial_function (option) copy_subtree ::
  "ref \<Rightarrow> addr option \<Rightarrow> 'a world \<Rightarrow> (unit, 'a world) outcome option"
where
  "copy_subtree dest src w =
     (case src of
        None \<Rightarrow> Some (Return () w)
      | Some a \<Rightarrow>
          then_do (get_node src w) (\<lambda>n _.
          then_do (new_Node (data n) w) (\<lambda>d w1.
          then_do (store_ref dest (Some d) w1) (\<lambda>_ w2.
          then_do (get_node src w2) (\<lambda>n2 _.
          then_do (if left n2 \<noteq> None
                   then copy_subtree (LeftRef d) (left n2) w2
                   else Some (Return () w2)) (\<lambda>_ w3.
          then_do (get_node src w3) (\<lambda>n3 _.
          if right n3 \<noteq> None
          then copy_subtree (RightRef d) (right n3) w3
          else Some (Return () w3))))))))"

text \<open>\<^verbatim>\<open>size_t count_nodes(Node* node) const\<close>, lines 297--302.\<close>

partial_function (option) count_nodes ::
  "addr option \<Rightarrow> 'a world \<Rightarrow> (nat, 'a world) outcome option"
where
  "count_nodes node w =
     (case node of
        None \<Rightarrow> Some (Return 0 w)
      | Some a \<Rightarrow>
          then_do (get_node node w) (\<lambda>n _.
          then_do (count_nodes (left n) w) (\<lambda>cl w1.
          then_do (get_node node w1) (\<lambda>n1 _.
          then_do (count_nodes (right n1) w1) (\<lambda>cr w2.
          Some (Return (1 + cl + cr) w2))))))"

section \<open>The public interface\<close>

text \<open>
  A constructor runs on the storage \<open>this\<close> the caller provides.
  \<^verbatim>\<open>BinaryTree() : root(nullptr), node_count(0) {}\<close> default-constructs the two
  functors; \<open>cmp\<close> and \<open>eq\<close> are the relations that \<^verbatim>\<open>Compare()\<close> and \<^verbatim>\<open>Equal()\<close>
  compute.
\<close>

definition BinaryTree_default ::
  "('a \<Rightarrow> 'a \<Rightarrow> bool) \<Rightarrow> ('a \<Rightarrow> 'a \<Rightarrow> bool) \<Rightarrow> oid \<Rightarrow> 'a world \<Rightarrow> (unit, 'a world) outcome option"
where
  "BinaryTree_default cmp eq this w =
     Some (Return ()
       (w\<lparr>objs := (objs w)(this \<mapsto> \<lparr>root = None, compare = cmp, equal = eq, node_count = 0\<rparr>)\<rparr>))"

text \<open>
  \<^verbatim>\<open>void insert(const T& value)\<close>, lines 237--243.  The handler only rethrows.
\<close>

definition insert_tree :: "oid \<Rightarrow> 'a \<Rightarrow> 'a world \<Rightarrow> (unit, 'a world) outcome option" where
  "insert_tree this v w =
     try_catch
       (then_do (get_obj this w) (\<lambda>t _.
        then_do (insert_node this (root t) v w) (\<lambda>p w1.
        set_root this p w1)))
       (\<lambda>e w1. Some (Throw e w1))"

text \<open>The loop \<^verbatim>\<open>for (InputIt it = first; it != last; ++it) insert(*it);\<close> over a sequence.\<close>

fun insert_all :: "oid \<Rightarrow> 'a list \<Rightarrow> 'a world \<Rightarrow> (unit, 'a world) outcome option" where
  "insert_all this [] w = Some (Return () w)"
| "insert_all this (x # xs) w = then_do (insert_tree this x w) (\<lambda>_ w1. insert_all this xs w1)"

text \<open>
  \<^verbatim>\<open>BinaryTree(InputIt first, InputIt last, Compare comp, Equal eq)\<close>, lines 168--179.
  When the constructor exits by an exception the object never comes to life:
  its storage is given back.
\<close>

definition BinaryTree_range ::
  "oid \<Rightarrow> 'a list \<Rightarrow> ('a \<Rightarrow> 'a \<Rightarrow> bool) \<Rightarrow> ('a \<Rightarrow> 'a \<Rightarrow> bool) \<Rightarrow> 'a world \<Rightarrow> (unit, 'a world) outcome option"
where
  "BinaryTree_range this xs cmp eq w =
     try_catch
       (insert_all this xs
          (w\<lparr>objs := (objs w)(this \<mapsto> \<lparr>root = None, compare = cmp, equal = eq, node_count = 0\<rparr>)\<rparr>))
       (\<lambda>e w1.
          then_do (get_obj this w1) (\<lambda>t _.
          then_do (destroy_tree (root t) w1) (\<lambda>_ w2.
          Some (Throw e (w2\<lparr>objs := (objs w2)(this := None)\<rparr>)))))"

text \<open>\<^verbatim>\<open>BinaryTree(const BinaryTree& other)\<close>, lines 186--196.\<close>

definition BinaryTree_copy :: "oid \<Rightarrow> oid \<Rightarrow> 'a world \<Rightarrow> (unit, 'a world) outcome option" where
  "BinaryTree_copy this other w =
     then_do (get_obj other w) (\<lambda>ot _.
     try_catch
       (then_do (get_obj other
                  (w\<lparr>objs := (objs w)(this \<mapsto>
                        \<lparr>root = None, compare = compare ot, equal = equal ot, node_count = 0\<rparr>)\<rparr>))
          (\<lambda>o1 w0.
            if root o1 \<noteq> None then
              then_do (copy_subtree (RootRef this) (root o1) w0) (\<lambda>_ w1.
              then_do (get_obj other w1) (\<lambda>o2 _.
              set_node_count this (node_count o2) w1))
            else Some (Return () w0)))
       (\<lambda>e w1.
          then_do (get_obj this w1) (\<lambda>t _.
          then_do (destroy_tree (root t) w1) (\<lambda>_ w2.
          Some (Throw e (w2\<lparr>objs := (objs w2)(this := None)\<rparr>))))))"

text \<open>
  \<^verbatim>\<open>BinaryTree& operator=(const BinaryTree& other)\<close>, lines 204--222.  The handler
  destroys what \<^verbatim>\<open>root\<close> points to and rethrows; it does not reset \<^verbatim>\<open>root\<close>.
\<close>

definition operator_assign :: "oid \<Rightarrow> oid \<Rightarrow> 'a world \<Rightarrow> (unit, 'a world) outcome option" where
  "operator_assign this other w =
     (if this \<noteq> other then
        then_do (get_obj this w) (\<lambda>t _.
        then_do (destroy_tree (root t) w) (\<lambda>_ w1.
        then_do (set_root this None w1) (\<lambda>_ w2.
        then_do (set_node_count this 0 w2) (\<lambda>_ w3.
        then_do (get_obj other w3) (\<lambda>ot _.
        then_do (get_obj this w3) (\<lambda>t3 _.
        try_catch
          (then_do (get_obj other
                     (w3\<lparr>objs := (objs w3)(this \<mapsto> t3\<lparr>compare := compare ot, equal := equal ot\<rparr>)\<rparr>))
             (\<lambda>o1 w4.
               if root o1 \<noteq> None then
                 then_do (copy_subtree (RootRef this) (root o1) w4) (\<lambda>_ w5.
                 then_do (get_obj other w5) (\<lambda>o2 _.
                 set_node_count this (node_count o2) w5))
               else Some (Return () w4)))
          (\<lambda>e w5.
             then_do (get_obj this w5) (\<lambda>t5 _.
             then_do (destroy_tree (root t5) w5) (\<lambda>_ w6.
             Some (Throw e w6))))))))))
      else Some (Return () w))"

text \<open>\<^verbatim>\<open>~BinaryTree() { destroy_tree(root); }\<close>, after which the object is gone.\<close>

definition BinaryTree_destroy :: "oid \<Rightarrow> 'a world \<Rightarrow> (unit, 'a world) outcome option" where
  "BinaryTree_destroy this w =
     then_do (get_obj this w) (\<lambda>t _.
     then_do (destroy_tree (root t) w) (\<lambda>_ w1.
     Some (Return () (w1\<lparr>objs := (objs w1)(this := None)\<rparr>))))"

text \<open>\<^verbatim>\<open>bool exists(const T& value) const\<close>, lines 253--259.\<close>

definition exists_tree :: "oid \<Rightarrow> 'a \<Rightarrow> 'a world \<Rightarrow> (bool, 'a world) outcome option" where
  "exists_tree this v w =
     try_catch
       (then_do (get_obj this w) (\<lambda>t _. exists_node this (root t) v w))
       (\<lambda>e w1. Some (Throw e w1))"

text \<open>\<^verbatim>\<open>size_t size() const { return node_count; }\<close>, lines 266--268.\<close>

definition size_tree :: "oid \<Rightarrow> 'a world \<Rightarrow> (nat, 'a world) outcome option" where
  "size_tree this w = then_do (get_obj this w) (\<lambda>t _. Some (Return (node_count t) w))"

text \<open>
  \<^verbatim>\<open>BinaryTree subtree(const T& value) const\<close>, lines 277--289.  The local
  \<^verbatim>\<open>sub_tree\<close> is built directly in the storage \<open>res\<close> that receives the returned
  object (the copy elision that the language permits for a returned local, and
  that compilers perform).  When an exception leaves the function, unwinding runs the
  destructor of the local.
\<close>

definition subtree ::
  "('a \<Rightarrow> 'a \<Rightarrow> bool) \<Rightarrow> ('a \<Rightarrow> 'a \<Rightarrow> bool) \<Rightarrow> oid \<Rightarrow> 'a \<Rightarrow> oid \<Rightarrow> 'a world \<Rightarrow> (unit, 'a world) outcome option"
where
  "subtree cmp eq this v res w =
     then_do (BinaryTree_default cmp eq res w) (\<lambda>_ w0.
     try_catch
       (then_do (get_obj this w0) (\<lambda>t _.
        then_do (find_subtree this (root t) v w0) (\<lambda>subtree_root w1.
          if subtree_root \<noteq> None then
            then_do (copy_subtree (RootRef res) subtree_root w1) (\<lambda>_ w2.
            then_do (get_obj res w2) (\<lambda>s _.
            then_do (count_nodes (root s) w2) (\<lambda>k w3.
            set_node_count res k w3)))
          else Some (Return () w1))))
       (\<lambda>e w1. then_do (BinaryTree_destroy res w1) (\<lambda>_ w2. Some (Throw e w2))))"

text \<open>
  \<^verbatim>\<open>std::ostream& operator<<(std::ostream& os, const BinaryTree& tree)\<close>, lines
  305--312 and again 466--473 with the same body.
\<close>

definition operator_out ::
  "'a item list \<Rightarrow> oid \<Rightarrow> 'a world \<Rightarrow> ('a item list, 'a world) outcome option"
where
  "operator_out os tree w =
     try_catch
       (then_do (get_obj tree w) (\<lambda>t _. print_in_order (root t) os w))
       (\<lambda>e w1. Some (Throw e w1))"

section \<open>The iterator\<close>

text \<open>
  \<^verbatim>\<open>class const_iterator { Node* current; Node* root; }\<close>.  Iterators are values of
  the caller; the operations read the store and do not change it.
\<close>

record const_iterator =
  current :: "addr option"
  root_it :: "addr option"

text \<open>
  The loop \<^verbatim>\<open>while (p->left != nullptr) p = p->left;\<close>, which the source runs on
  \<^verbatim>\<open>current\<close> in the constructor (lines 378--381) and on \<^verbatim>\<open>next\<close> in
  \<^verbatim>\<open>findNext\<close> (lines 341--344).
\<close>

partial_function (option) leftmost ::
  "addr option \<Rightarrow> 'a world \<Rightarrow> (addr option, 'a world) outcome option"
where
  "leftmost p w =
     then_do (get_node p w) (\<lambda>n _.
       if left n \<noteq> None then leftmost (left n) w else Some (Return p w))"

text \<open>
  The loop of lines 351--362.  \<open>lt\<close> is the element type's own \<^verbatim>\<open>operator<\<close>: the source
  writes \<^verbatim>\<open>node->data < ancestor->data\<close>, not \<^verbatim>\<open>compare(...)\<close>.  The loop reads
  \<^verbatim>\<open>ancestor->data\<close> without testing \<^verbatim>\<open>ancestor\<close> for null.
\<close>

partial_function (option) ancestor_loop ::
  "('a \<Rightarrow> 'a \<Rightarrow> bool) \<Rightarrow> addr option \<Rightarrow> addr option \<Rightarrow> addr option \<Rightarrow> 'a world
     \<Rightarrow> (addr option, 'a world) outcome option"
where
  "ancestor_loop lt node successor ancestor w =
     (if ancestor \<noteq> node then
        then_do (get_node node w) (\<lambda>n _.
        then_do (get_node ancestor w) (\<lambda>an _.
          if lt (data n) (data an)
          then ancestor_loop lt node ancestor (left an) w
          else ancestor_loop lt node successor (right an) w))
      else Some (Return successor w))"

text \<open>\<^verbatim>\<open>Node *findNext(Node *node) const\<close>, lines 336--365.\<close>

definition findNext ::
  "('a \<Rightarrow> 'a \<Rightarrow> bool) \<Rightarrow> const_iterator \<Rightarrow> addr option \<Rightarrow> 'a world
     \<Rightarrow> (addr option, 'a world) outcome option"
where
  "findNext lt it node w =
     then_do (get_node node w) (\<lambda>n _.
       if right n \<noteq> None then leftmost (right n) w
       else ancestor_loop lt node None (root_it it) w)"

text \<open>\<^verbatim>\<open>const_iterator(Node *node, Node *root)\<close>, lines 374--383.\<close>

definition const_iterator_new ::
  "addr option \<Rightarrow> addr option \<Rightarrow> 'a world \<Rightarrow> (const_iterator, 'a world) outcome option"
where
  "const_iterator_new node rt w =
     (if node \<noteq> None then
        then_do (leftmost node w) (\<lambda>p w1. Some (Return \<lparr>current = p, root_it = rt\<rparr> w1))
      else Some (Return \<lparr>current = node, root_it = rt\<rparr> w))"

text \<open>\<^verbatim>\<open>const T &operator*() const\<close>, lines 390--393.\<close>

definition operator_deref :: "const_iterator \<Rightarrow> 'a world \<Rightarrow> ('a, 'a world) outcome option" where
  "operator_deref it w = then_do (get_node (current it) w) (\<lambda>n _. Some (Return (data n) w))"

text \<open>\<^verbatim>\<open>const_iterator &operator++()\<close>, lines 400--407.\<close>

definition operator_incr ::
  "('a \<Rightarrow> 'a \<Rightarrow> bool) \<Rightarrow> const_iterator \<Rightarrow> 'a world \<Rightarrow> (const_iterator, 'a world) outcome option"
where
  "operator_incr lt it w =
     (if current it \<noteq> None then
        then_do (findNext lt it (current it) w) (\<lambda>p w1. Some (Return (it\<lparr>current := p\<rparr>) w1))
      else Some (Return it w))"

text \<open>\<^verbatim>\<open>operator==\<close> and \<^verbatim>\<open>operator!=\<close>, lines 416--431: only \<^verbatim>\<open>current\<close> is compared.\<close>

definition operator_eq :: "const_iterator \<Rightarrow> const_iterator \<Rightarrow> bool" where
  "operator_eq it other = (current it = current other)"

definition operator_neq :: "const_iterator \<Rightarrow> const_iterator \<Rightarrow> bool" where
  "operator_neq it other = (\<not> operator_eq it other)"

text \<open>\<^verbatim>\<open>begin()\<close> and \<^verbatim>\<open>end()\<close>, lines 439--451.\<close>

definition begin_tree :: "oid \<Rightarrow> 'a world \<Rightarrow> (const_iterator, 'a world) outcome option" where
  "begin_tree this w = then_do (get_obj this w) (\<lambda>t _. const_iterator_new (root t) (root t) w)"

definition end_tree :: "oid \<Rightarrow> 'a world \<Rightarrow> (const_iterator, 'a world) outcome option" where
  "end_tree this w = then_do (get_obj this w) (\<lambda>t _. const_iterator_new None (root t) w)"

text \<open>
  \<^verbatim>\<open>printIF\<close>, lines 485--493: the loop
  \<^verbatim>\<open>for (it = tree.begin(); it != tree.end(); ++it) if (pred(*it)) std::cout << *it << " ";\<close>
  followed by \<^verbatim>\<open>std::cout << std::endl\<close>.  \<open>cout\<close> is what has been written so far.
\<close>

partial_function (option) printIF_loop ::
  "('a \<Rightarrow> 'a \<Rightarrow> bool) \<Rightarrow> ('a \<Rightarrow> bool) \<Rightarrow> oid \<Rightarrow> const_iterator \<Rightarrow> 'a item list \<Rightarrow> 'a world
     \<Rightarrow> ('a item list, 'a world) outcome option"
where
  "printIF_loop lt pred tree it cout w =
     then_do (end_tree tree w) (\<lambda>e w1.
       if operator_neq it e then
         then_do (operator_deref it w1) (\<lambda>x w2.
         then_do (if pred x
                  then then_do (operator_deref it w2) (\<lambda>y w3. Some (Return (cout @ [Val y, Text '' '']) w3))
                  else Some (Return cout w2)) (\<lambda>cout1 w4.
         then_do (operator_incr lt it w4) (\<lambda>it1 w5.
         printIF_loop lt pred tree it1 cout1 w5)))
       else Some (Return cout w1))"

definition printIF ::
  "('a \<Rightarrow> 'a \<Rightarrow> bool) \<Rightarrow> oid \<Rightarrow> ('a \<Rightarrow> bool) \<Rightarrow> 'a item list \<Rightarrow> 'a world
     \<Rightarrow> ('a item list, 'a world) outcome option"
where
  "printIF lt tree pred cout w =
     then_do (begin_tree tree w) (\<lambda>it w1.
     then_do (printIF_loop lt pred tree it cout w1) (\<lambda>cout1 w2.
     Some (Return (cout1 @ [Endl]) w2)))"

text \<open>
  The same client loop, collecting what dereferencing yields:
  \<^verbatim>\<open>for (it = tree.begin(); it != tree.end(); ++it) visit(*it);\<close>.  This is the
  sequence of elements produced by iterating from \<^verbatim>\<open>begin()\<close> to \<^verbatim>\<open>end()\<close>.
\<close>

partial_function (option) iterate_loop ::
  "('a \<Rightarrow> 'a \<Rightarrow> bool) \<Rightarrow> oid \<Rightarrow> const_iterator \<Rightarrow> 'a list \<Rightarrow> 'a world
     \<Rightarrow> ('a list, 'a world) outcome option"
where
  "iterate_loop lt tree it seen w =
     then_do (end_tree tree w) (\<lambda>e w1.
       if operator_neq it e then
         then_do (operator_deref it w1) (\<lambda>x w2.
         then_do (operator_incr lt it w2) (\<lambda>it1 w3.
         iterate_loop lt tree it1 (seen @ [x]) w3))
       else Some (Return seen w1))"

definition iterate ::
  "('a \<Rightarrow> 'a \<Rightarrow> bool) \<Rightarrow> oid \<Rightarrow> 'a world \<Rightarrow> ('a list, 'a world) outcome option"
where
  "iterate lt tree w = then_do (begin_tree tree w) (\<lambda>it w1. iterate_loop lt tree it [] w1)"

section \<open>Client programs\<close>

text \<open>
  A client of the container performs a sequence of operations on tree objects,
  as the test functions of \<^verbatim>\<open>main.cpp\<close> do.  \<open>Default i\<close> is \<^verbatim>\<open>BinaryTree t;\<close> on the
  storage \<open>i\<close>, \<open>Range i xs\<close> is \<^verbatim>\<open>BinaryTree t(first, last);\<close>, \<open>Copy i j\<close> is
  \<^verbatim>\<open>BinaryTree t(other);\<close>, \<open>Assign i j\<close> is \<^verbatim>\<open>t = other;\<close>, \<open>Insert i v\<close> is
  \<^verbatim>\<open>t.insert(v);\<close>, \<open>Subtree i v r\<close> is \<^verbatim>\<open>BinaryTree s = t.subtree(v);\<close> with the
  result in the storage \<open>r\<close>, and \<open>Destroy i\<close> ends the lifetime of \<open>t\<close>.
\<close>

datatype 'a op =
    Default oid
  | Range oid "'a list"
  | Copy oid oid
  | Assign oid oid
  | Insert oid 'a
  | Subtree oid 'a oid
  | Destroy oid

text \<open>
  What the language guarantees of a client: an object is constructed on
  storage that holds no live object, and a member function is called on a
  live object.
\<close>

fun legal :: "'a op \<Rightarrow> 'a world \<Rightarrow> bool" where
  "legal (Default i) w = (objs w i = None)"
| "legal (Range i xs) w = (objs w i = None)"
| "legal (Copy i j) w = (objs w i = None \<and> objs w j \<noteq> None)"
| "legal (Assign i j) w = (objs w i \<noteq> None \<and> objs w j \<noteq> None)"
| "legal (Insert i v) w = (objs w i \<noteq> None)"
| "legal (Subtree i v r) w = (objs w i \<noteq> None \<and> objs w r = None)"
| "legal (Destroy i) w = (objs w i \<noteq> None)"

text \<open>
  The call an operation stands for.  \<open>cmp\<close> and \<open>eq\<close> are the relations computed by the
  functor types \<^verbatim>\<open>Compare\<close> and \<^verbatim>\<open>Equal\<close> the client instantiates the template
  with: every functor object of such a type, default-constructed or passed to
  the range constructor, computes the same relation (the functors of
  \<^verbatim>\<open>main.cpp\<close> are of this kind: they have no state).
\<close>

fun step ::
  "('a \<Rightarrow> 'a \<Rightarrow> bool) \<Rightarrow> ('a \<Rightarrow> 'a \<Rightarrow> bool) \<Rightarrow> 'a op \<Rightarrow> 'a world \<Rightarrow> (unit, 'a world) outcome option"
where
  "step cmp eq (Default i) w = BinaryTree_default cmp eq i w"
| "step cmp eq (Range i xs) w = BinaryTree_range i xs cmp eq w"
| "step cmp eq (Copy i j) w = BinaryTree_copy i j w"
| "step cmp eq (Assign i j) w = operator_assign i j w"
| "step cmp eq (Insert i v) w = insert_tree i v w"
| "step cmp eq (Subtree i v r) w = subtree cmp eq i v r w"
| "step cmp eq (Destroy i) w = BinaryTree_destroy i w"

text \<open>
  Running a client.  The client catches the \<^verbatim>\<open>std::runtime_error\<close> of a duplicate
  and goes on (a failed construction leaves no object behind).  A run ends
  without a result when an operation is not legal, runs out of memory, has
  undefined behaviour or does not return.
\<close>

fun run ::
  "('a \<Rightarrow> 'a \<Rightarrow> bool) \<Rightarrow> ('a \<Rightarrow> 'a \<Rightarrow> bool) \<Rightarrow> 'a op list \<Rightarrow> 'a world \<Rightarrow> 'a world option"
where
  "run cmp eq [] w = Some w"
| "run cmp eq (c # cs) w =
     (if legal c w then
        (case step cmp eq c w of
           Some (Return u w') \<Rightarrow> run cmp eq cs w'
         | Some (Throw runtime_error w') \<Rightarrow> run cmp eq cs w'
         | _ \<Rightarrow> None)
      else None)"

text \<open>The store a program starts in: nothing allocated, \<open>k\<close> allocations available.\<close>

definition init :: "nat \<Rightarrow> 'a world" where
  "init k = \<lparr>cells = Map.empty, fresh = 0, avail = k, objs = Map.empty\<rparr>"

section \<open>The descent of an insertion\<close>

text \<open>
  \<open>descends t w v p a\<close>: the private \<^verbatim>\<open>insert\<close>, called for the value \<open>v\<close> on the pointer
  \<open>p\<close> in the store \<open>w\<close>, reaches the node at address \<open>a\<close>.  It follows the branches of
  lines 52--58: a node is left behind only when \<^verbatim>\<open>equal\<close> has said no, to the left
  when \<^verbatim>\<open>compare\<close> says yes and to the right otherwise.
\<close>

inductive descends :: "'a BinaryTree \<Rightarrow> 'a world \<Rightarrow> 'a \<Rightarrow> addr option \<Rightarrow> addr \<Rightarrow> bool"
  for t :: "'a BinaryTree" and w :: "'a world" and v :: 'a
where
  here: "descends t w v (Some a) a"
| go_left: "cells w b = Some n \<Longrightarrow> \<not> equal t v (data n) \<Longrightarrow> compare t v (data n) \<Longrightarrow>
     descends t w v (left n) a \<Longrightarrow> descends t w v (Some b) a"
| go_right: "cells w b = Some n \<Longrightarrow> \<not> equal t v (data n) \<Longrightarrow> \<not> compare t v (data n) \<Longrightarrow>
     descends t w v (right n) a \<Longrightarrow> descends t w v (Some b) a"

section \<open>The relations a caller supplies\<close>

text \<open>
  The ordering is a strict weak ordering, which is what the language requires
  of a \<^verbatim>\<open>Compare\<close> functor such as the default \<^verbatim>\<open>std::less<T>\<close>: nothing is less than
  itself, less-than is transitive, and so is being unordered (neither less
  than the other).
\<close>

definition strict_weak :: "('a \<Rightarrow> 'a \<Rightarrow> bool) \<Rightarrow> bool" where
  "strict_weak cmp =
     ((\<forall>a. \<not> cmp a a) \<and>
      (\<forall>a b c. cmp a b \<longrightarrow> cmp b c \<longrightarrow> cmp a c) \<and>
      (\<forall>a b c. \<not> cmp a b \<longrightarrow> \<not> cmp b a \<longrightarrow> \<not> cmp b c \<longrightarrow> \<not> cmp c b \<longrightarrow> \<not> cmp a c \<and> \<not> cmp c a))"

text \<open>
  The two relations are mutually consistent: if the equality says that two
  elements are equal, the ordering says that neither is less than the other.
  The equality may be finer than being unordered, as when records are ordered
  by a key and compared for equality as a whole.
\<close>

definition consistent :: "('a \<Rightarrow> 'a \<Rightarrow> bool) \<Rightarrow> ('a \<Rightarrow> 'a \<Rightarrow> bool) \<Rightarrow> bool" where
  "consistent cmp eq = (\<forall>a b. eq a b \<longrightarrow> \<not> cmp a b \<and> \<not> cmp b a)"

text \<open>
  A client that calls \<^verbatim>\<open>insert\<close> for every element of a sequence and keeps the
  elements whose insertion returned:
  \<^verbatim>\<open>try { t.insert(x); done.push_back(x); } catch (std::runtime_error&) { }\<close>.
  Like \<open>run\<close>, it has no result when an insertion runs out of memory, has
  undefined behaviour or does not return.
\<close>

fun insert_each :: "oid \<Rightarrow> 'a list \<Rightarrow> 'a list \<Rightarrow> 'a world \<Rightarrow> ('a list \<times> 'a world) option" where
  "insert_each i [] done w = Some (done, w)"
| "insert_each i (x # xs) done w =
     (case insert_tree i x w of
        Some (Return u w') \<Rightarrow> insert_each i xs (done @ [x]) w'
      | Some (Throw runtime_error w') \<Rightarrow> insert_each i xs done w'
      | _ \<Rightarrow> None)"

section \<open>Example stores\<close>

text \<open>
  The integer tree after \<^verbatim>\<open>insert(5); insert(3);\<close> under \<^verbatim>\<open><\<close> and \<^verbatim>\<open>==\<close>: the root 5 at
  address 0 with the left child 3 at address 1.
\<close>

definition tree53 :: "int BinaryTree" where
  "tree53 = \<lparr>root = Some 0, compare = (<), equal = (=), node_count = 2\<rparr>"

definition world53 :: "int world" where
  "world53 =
     \<lparr>cells = [0 \<mapsto> \<lparr>data = 5, left = Some 1, right = None\<rparr>,
               1 \<mapsto> \<lparr>data = 3, left = None, right = None\<rparr>],
      fresh = 2, avail = 4, objs = [0 \<mapsto> tree53]\<rparr>"

text \<open>
  The same nodes under an ordering that contradicts the equality: \<^verbatim>\<open>compare\<close> says
  yes to every pair, also to a pair that \<^verbatim>\<open>equal\<close> declares equal.
\<close>

definition tree53_odd :: "int BinaryTree" where
  "tree53_odd = \<lparr>root = Some 0, compare = (\<lambda>_ _. True), equal = (=), node_count = 2\<rparr>"

definition world53_odd :: "int world" where
  "world53_odd =
     \<lparr>cells = [0 \<mapsto> \<lparr>data = 5, left = Some 1, right = None\<rparr>,
               1 \<mapsto> \<lparr>data = 3, left = None, right = None\<rparr>],
      fresh = 2, avail = 4, objs = [0 \<mapsto> tree53_odd]\<rparr>"

text \<open>A store with one empty tree.\<close>

definition tree_empty :: "int BinaryTree" where
  "tree_empty = \<lparr>root = None, compare = (<), equal = (=), node_count = 0\<rparr>"

definition world_empty :: "int world" where
  "world_empty = \<lparr>cells = Map.empty, fresh = 0, avail = 4, objs = [0 \<mapsto> tree_empty]\<rparr>"

text \<open>
  Two trees, \<open>{1}\<close> and \<open>{2, 3}\<close>, in a store where one more node can be allocated,
  and the store after the assignment of the second tree to the first has failed.
\<close>

definition world12 :: "int world" where
  "world12 =
     \<lparr>cells = [0 \<mapsto> \<lparr>data = 1, left = None, right = None\<rparr>,
               1 \<mapsto> \<lparr>data = 2, left = None, right = Some 2\<rparr>,
               2 \<mapsto> \<lparr>data = 3, left = None, right = None\<rparr>],
      fresh = 3, avail = 1,
      objs = [0 \<mapsto> \<lparr>root = Some 0, compare = (<), equal = (=), node_count = 1\<rparr>,
              1 \<mapsto> \<lparr>root = Some 1, compare = (<), equal = (=), node_count = 2\<rparr>]\<rparr>"

definition world12_failed :: "int world" where
  "world12_failed =
     \<lparr>cells = [1 \<mapsto> \<lparr>data = 2, left = None, right = Some 2\<rparr>,
               2 \<mapsto> \<lparr>data = 3, left = None, right = None\<rparr>],
      fresh = 4, avail = 0,
      objs = [0 \<mapsto> \<lparr>root = Some 3, compare = (<), equal = (=), node_count = 0\<rparr>,
              1 \<mapsto> \<lparr>root = Some 1, compare = (<), equal = (=), node_count = 2\<rparr>]\<rparr>"


text \<open>
  An equality that does not agree with the ordering \<open><\<close>: two integers are equal when
  their last digits are (\<^verbatim>\<open>a % 10 == b % 10\<close> on the non-negative integers used here).
  The tree of 5 and 3 under \<open><\<close> and this equality.
\<close>

definition same_unit :: "int \<Rightarrow> int \<Rightarrow> bool" where
  "same_unit a b = (a mod 10 = b mod 10)"

definition world53u :: "int world" where
  "world53u =
     \<lparr>cells = [0 \<mapsto> \<lparr>data = 5, left = Some 1, right = None\<rparr>,
               1 \<mapsto> \<lparr>data = 3, left = None, right = None\<rparr>],
      fresh = 2, avail = 4,
      objs = [0 \<mapsto> \<lparr>root = Some 0, compare = (<), equal = same_unit, node_count = 2\<rparr>]\<rparr>"

text \<open>
  The ordering of \<^verbatim>\<open>std::greater<int>\<close>, and two trees of \<^verbatim>\<open>BinaryTree<int, std::greater<int>>\<close>:
  after the insertion of 5 and 3, and after the construction from the sequence 2, 1, 3.
\<close>

definition greater :: "int \<Rightarrow> int \<Rightarrow> bool" where
  "greater a b = (b < a)"

definition world53g :: "int world" where
  "world53g =
     \<lparr>cells = [0 \<mapsto> \<lparr>data = 5, left = None, right = Some 1\<rparr>,
               1 \<mapsto> \<lparr>data = 3, left = None, right = None\<rparr>],
      fresh = 2, avail = 2,
      objs = [0 \<mapsto> \<lparr>root = Some 0, compare = greater, equal = (=), node_count = 2\<rparr>]\<rparr>"

definition world213g :: "int world" where
  "world213g =
     \<lparr>cells = [0 \<mapsto> \<lparr>data = 2, left = Some 2, right = Some 1\<rparr>,
               1 \<mapsto> \<lparr>data = 1, left = None, right = None\<rparr>,
               2 \<mapsto> \<lparr>data = 3, left = None, right = None\<rparr>],
      fresh = 3, avail = 1,
      objs = [0 \<mapsto> \<lparr>root = Some 0, compare = greater, equal = (=), node_count = 3\<rparr>]\<rparr>"

text \<open>
  Records of a key and a payload, ordered by the key and compared for equality as
  a whole: two records with the same key and different payloads are unordered
  and not equal.
\<close>

definition by_key :: "int \<times> int \<Rightarrow> int \<times> int \<Rightarrow> bool" where
  "by_key a b = (fst a < fst b)"

text \<open>A client that uses every operation, with a duplicate insertion and a failing construction.\<close>

definition demo :: "int op list" where
  "demo = [Default 0, Insert 0 5, Insert 0 3, Insert 0 5, Insert 0 8, Copy 1 0, Insert 1 7,
           Range 2 [2, 1, 2], Assign 0 1, Subtree 1 3 3, Destroy 1]"

section \<open>Trees as values\<close>

text \<open>
  The definitions from here on are not code of the repository: they describe,
  as values, what the operations above do in the store.  A \<open>shape\<close> is a binary
  tree that records, for every node, the address it lives at and its element.
  \<open>ptr\<close> is the pointer to the root node of a shape, \<open>addrs\<close> its addresses,
  \<open>elems\<close> its elements in the order of the in-order traversal and \<open>nodes\<close> their
  number.
\<close>

datatype 'a shape = Leaf | Br "'a shape" addr 'a "'a shape"

fun ptr :: "'a shape \<Rightarrow> addr option" where
  "ptr Leaf = None"
| "ptr (Br l a x r) = Some a"

fun addrs :: "'a shape \<Rightarrow> addr set" where
  "addrs Leaf = {}"
| "addrs (Br l a x r) = insert a (addrs l \<union> addrs r)"

fun elems :: "'a shape \<Rightarrow> 'a list" where
  "elems Leaf = []"
| "elems (Br l a x r) = elems l @ x # elems r"

fun nodes :: "'a shape \<Rightarrow> nat" where
  "nodes Leaf = 0"
| "nodes (Br l a x r) = 1 + nodes l + nodes r"

text \<open>
  \<open>sep s\<close>: no address occurs twice in \<open>s\<close>.  \<open>laid c s\<close>: the cells \<open>c\<close> hold the
  nodes of \<open>s\<close>, each with its element and the pointers to its children.
  \<open>heap_of s\<close> are the cells that hold exactly the nodes of \<open>s\<close>, and \<open>release A c\<close> are
  the cells \<open>c\<close> without the addresses \<open>A\<close>.
\<close>

fun sep :: "'a shape \<Rightarrow> bool" where
  "sep Leaf = True"
| "sep (Br l a x r) = (a \<notin> addrs l \<and> a \<notin> addrs r \<and> addrs l \<inter> addrs r = {} \<and> sep l \<and> sep r)"

fun laid :: "(addr \<Rightarrow> 'a Node option) \<Rightarrow> 'a shape \<Rightarrow> bool" where
  "laid c Leaf = True"
| "laid c (Br l a x r) =
     (c a = Some \<lparr>data = x, left = ptr l, right = ptr r\<rparr> \<and> laid c l \<and> laid c r)"

fun heap_of :: "'a shape \<Rightarrow> addr \<Rightarrow> 'a Node option" where
  "heap_of Leaf b = None"
| "heap_of (Br l a x r) b =
     (if b = a then Some \<lparr>data = x, left = ptr l, right = ptr r\<rparr>
      else if b \<in> addrs l then heap_of l b else heap_of r b)"

definition release :: "addr set \<Rightarrow> (addr \<Rightarrow> 'b option) \<Rightarrow> addr \<Rightarrow> 'b option" where
  "release A c b = (if b \<in> A then None else c b)"

text \<open>What \<^verbatim>\<open>print_in_order\<close> writes for a sequence of elements.\<close>

definition render :: "'a list \<Rightarrow> 'a item list" where
  "render xs = concat (map (\<lambda>x. [Val x, Text '' '']) xs)"

text \<open>
  The descents on shapes.  \<open>found cmp eq v s\<close> is the subtree at which \<^verbatim>\<open>exists\<close> and
  \<^verbatim>\<open>find_subtree\<close> stop (\<open>Leaf\<close> when they run off the tree); they test
  \<^verbatim>\<open>equal(node->data, value)\<close>.  \<open>dup cmp eq v s\<close> says whether the descent of \<^verbatim>\<open>insert\<close>
  meets a node that \<^verbatim>\<open>equal(value, node->data)\<close> accepts, and \<open>ins cmp v f s\<close> is the
  tree after the insertion of \<open>v\<close> in a new node at the address \<open>f\<close>.
\<close>

fun found :: "('a \<Rightarrow> 'a \<Rightarrow> bool) \<Rightarrow> ('a \<Rightarrow> 'a \<Rightarrow> bool) \<Rightarrow> 'a \<Rightarrow> 'a shape \<Rightarrow> 'a shape" where
  "found cmp eq v Leaf = Leaf"
| "found cmp eq v (Br l a x r) =
     (if eq x v then Br l a x r else if cmp v x then found cmp eq v l else found cmp eq v r)"

fun dup :: "('a \<Rightarrow> 'a \<Rightarrow> bool) \<Rightarrow> ('a \<Rightarrow> 'a \<Rightarrow> bool) \<Rightarrow> 'a \<Rightarrow> 'a shape \<Rightarrow> bool" where
  "dup cmp eq v Leaf = False"
| "dup cmp eq v (Br l a x r) =
     (if eq v x then True else if cmp v x then dup cmp eq v l else dup cmp eq v r)"

fun ins :: "('a \<Rightarrow> 'a \<Rightarrow> bool) \<Rightarrow> 'a \<Rightarrow> addr \<Rightarrow> 'a shape \<Rightarrow> 'a shape" where
  "ins cmp v f Leaf = Br Leaf f v Leaf"
| "ins cmp v f (Br l a x r) =
     (if cmp v x then Br (ins cmp v f l) a x r else Br l a x (ins cmp v f r))"

text \<open>
  \<open>pcopy k f s\<close> is what \<^verbatim>\<open>copy_subtree\<close> has built of a copy of \<open>s\<close> when at most \<open>k\<close>
  nodes can be allocated and the next free address is \<open>f\<close>: the nodes are
  allocated in pre-order, and the copy stops at the first allocation that
  fails.
\<close>

fun pcopy :: "nat \<Rightarrow> addr \<Rightarrow> 'a shape \<Rightarrow> 'a shape" where
  "pcopy k f Leaf = Leaf"
| "pcopy k f (Br l a x r) =
     (if k = 0 then Leaf
      else Br (pcopy (k - 1) (Suc f) l) f x (pcopy (k - 1 - nodes l) (Suc f + nodes l) r))"

text \<open>
  The nodes of a shape in the order of the in-order traversal, the first of them,
  and the node that follows a given node (\<open>d\<close> when there is none), on shapes and
  on sequences of nodes.
\<close>

fun walk :: "'a shape \<Rightarrow> (addr \<times> 'a) list" where
  "walk Leaf = []"
| "walk (Br l a x r) = walk l @ (a, x) # walk r"

fun first :: "'a shape \<Rightarrow> addr option" where
  "first Leaf = None"
| "first (Br l a x r) = (case first l of None \<Rightarrow> Some a | Some b \<Rightarrow> Some b)"

fun nxt :: "'a shape \<Rightarrow> addr \<Rightarrow> addr option \<Rightarrow> addr option" where
  "nxt Leaf a d = d"
| "nxt (Br l b y r) a d =
     (if a = b then (case first r of None \<Rightarrow> d | Some c \<Rightarrow> Some c)
      else if a \<in> addrs l then nxt l a (Some b) else nxt r a d)"

fun next_in :: "(addr \<times> 'a) list \<Rightarrow> addr \<Rightarrow> addr option \<Rightarrow> addr option" where
  "next_in [] a d = d"
| "next_in (p # ps) a d =
     (if a = fst p then (case ps of [] \<Rightarrow> d | q # _ \<Rightarrow> Some (fst q)) else next_in ps a d)"

section \<open>Stores after an operation\<close>

text \<open>
  Writing a pointer through a \<^verbatim>\<open>Node*&\<close>: \<open>ref_ok\<close> says that the place referred to
  exists, \<open>ref_addr\<close> is the node it lies in, and \<open>write_ref\<close> is the store after the
  assignment.
\<close>

fun ref_addr :: "ref \<Rightarrow> addr set" where
  "ref_addr (RootRef i) = {}"
| "ref_addr (LeftRef d) = {d}"
| "ref_addr (RightRef d) = {d}"

fun ref_ok :: "ref \<Rightarrow> 'a world \<Rightarrow> bool" where
  "ref_ok (RootRef i) w = (objs w i \<noteq> None)"
| "ref_ok (LeftRef d) w = (cells w d \<noteq> None)"
| "ref_ok (RightRef d) w = (cells w d \<noteq> None)"

fun wcells :: "ref \<Rightarrow> addr option \<Rightarrow> (addr \<Rightarrow> 'a Node option) \<Rightarrow> addr \<Rightarrow> 'a Node option" where
  "wcells (RootRef i) p c b = c b"
| "wcells (LeftRef d) p c b = (if b = d then map_option (\<lambda>n. n\<lparr>left := p\<rparr>) (c d) else c b)"
| "wcells (RightRef d) p c b = (if b = d then map_option (\<lambda>n. n\<lparr>right := p\<rparr>) (c d) else c b)"

fun wobjs :: "ref \<Rightarrow> addr option \<Rightarrow> (oid \<Rightarrow> 'a BinaryTree option) \<Rightarrow> oid \<Rightarrow> 'a BinaryTree option" where
  "wobjs (RootRef i) p ob j = (if j = i then map_option (\<lambda>t. t\<lparr>root := p\<rparr>) (ob i) else ob j)"
| "wobjs (LeftRef d) p ob j = ob j"
| "wobjs (RightRef d) p ob j = ob j"

definition write_ref :: "ref \<Rightarrow> addr option \<Rightarrow> 'a world \<Rightarrow> 'a world" where
  "write_ref dest p w = w\<lparr>cells := wcells dest p (cells w), objs := wobjs dest p (objs w)\<rparr>"

text \<open>
  The store after \<^verbatim>\<open>copy_subtree(dest, src)\<close> on a source laid out as \<open>s\<close>: the nodes of
  the partial copy are added and, unless not a single node could be allocated,
  \<open>dest\<close> points to the copy.  The call returns when every node could be
  allocated and throws \<^verbatim>\<open>std::bad_alloc\<close> otherwise.
\<close>

definition grown :: "'a shape \<Rightarrow> 'a world \<Rightarrow> 'a world" where
  "grown S w = w\<lparr>cells := cells w ++ heap_of S, fresh := fresh w + nodes S, avail := avail w - nodes S\<rparr>"

definition copy_world :: "ref \<Rightarrow> 'a shape \<Rightarrow> 'a world \<Rightarrow> 'a world" where
  "copy_world dest s w =
     (if pcopy (avail w) (fresh w) s = Leaf then w
      else write_ref dest (ptr (pcopy (avail w) (fresh w) s)) (grown (pcopy (avail w) (fresh w) s) w))"

definition copy_result :: "ref \<Rightarrow> 'a shape \<Rightarrow> 'a world \<Rightarrow> (unit, 'a world) outcome" where
  "copy_result dest s w =
     (if nodes s \<le> avail w then Return () (copy_world dest s w)
      else Throw bad_alloc (copy_world dest s w))"

text \<open>
  The stores after a successful insertion, after a tree laid out as \<open>S\<close> has been
  hung under the object \<open>i\<close>, and after a complete copy of \<open>s\<close> has been made the tree
  of the object \<open>i\<close>; the object a constructor starts from, and the store in which
  an object has been emptied.
\<close>

definition inserted :: "('a \<Rightarrow> 'a \<Rightarrow> bool) \<Rightarrow> oid \<Rightarrow> 'a \<Rightarrow> 'a BinaryTree \<Rightarrow> 'a shape \<Rightarrow> 'a world \<Rightarrow> 'a world" where
  "inserted cmp i v t s w =
     w\<lparr>cells := cells w ++ heap_of (ins cmp v (fresh w) s),
       fresh := Suc (fresh w), avail := avail w - Suc 0,
       objs := (objs w)(i \<mapsto> t\<lparr>node_count := Suc (node_count t), root := ptr (ins cmp v (fresh w) s)\<rparr>)\<rparr>"

definition planted :: "oid \<Rightarrow> 'a BinaryTree \<Rightarrow> 'a shape \<Rightarrow> 'a world \<Rightarrow> 'a world" where
  "planted i t S w =
     w\<lparr>cells := cells w ++ heap_of S, fresh := fresh w + nodes S, avail := avail w - nodes S,
       objs := (objs w)(i \<mapsto> t\<lparr>root := ptr S\<rparr>)\<rparr>"

definition blank :: "('a \<Rightarrow> 'a \<Rightarrow> bool) \<Rightarrow> ('a \<Rightarrow> 'a \<Rightarrow> bool) \<Rightarrow> 'a BinaryTree" where
  "blank cmp eq = \<lparr>root = None, compare = cmp, equal = eq, node_count = 0\<rparr>"

definition copied_to ::
  "oid \<Rightarrow> ('a \<Rightarrow> 'a \<Rightarrow> bool) \<Rightarrow> ('a \<Rightarrow> 'a \<Rightarrow> bool) \<Rightarrow> 'a shape \<Rightarrow> 'a world \<Rightarrow> 'a world" where
  "copied_to i cmp eq s w =
     w\<lparr>cells := cells w ++ heap_of (pcopy (avail w) (fresh w) s),
       fresh := fresh w + nodes s, avail := avail w - nodes s,
       objs := (objs w)(i \<mapsto> \<lparr>root = ptr (pcopy (avail w) (fresh w) s), compare = cmp, equal = eq,
                                 node_count = nodes s\<rparr>)\<rparr>"

definition cleared ::
  "oid \<Rightarrow> ('a \<Rightarrow> 'a \<Rightarrow> bool) \<Rightarrow> ('a \<Rightarrow> 'a \<Rightarrow> bool) \<Rightarrow> addr set \<Rightarrow> 'a world \<Rightarrow> 'a world" where
  "cleared i cmp eq A w = w\<lparr>cells := release A (cells w), objs := (objs w)(i \<mapsto> blank cmp eq)\<rparr>"

text \<open>
  The statements that the copy constructor and the assignment share
  (lines 188--191 and 211--214).
\<close>

definition copy_body :: "oid \<Rightarrow> oid \<Rightarrow> 'a BinaryTree \<Rightarrow> 'a world \<Rightarrow> (unit, 'a world) outcome option" where
  "copy_body i j o1 w0 =
     (if root o1 \<noteq> None then
        then_do (copy_subtree (RootRef i) (root o1) w0) (\<lambda>_ w1.
        then_do (get_obj j w1) (\<lambda>o2 _.
        set_node_count i (node_count o2) w1))
      else Some (Return () w0))"

text \<open>An operation after which a client goes on: it returned, or threw the error of a duplicate.\<close>

definition goes_on :: "(unit, 'a world) outcome option \<Rightarrow> 'a world \<Rightarrow> bool" where
  "goes_on r w' = (r = Some (Return () w') \<or> r = Some (Throw runtime_error w'))"

section \<open>The representation invariant\<close>

text \<open>
  \<open>bst cmp eq s\<close>: at every node the elements of the left subtree were sent left by
  \<^verbatim>\<open>compare\<close>, the elements of the right subtree were not, and none is equal to
  the node's element.  \<open>obj_ok\<close>: the tree object \<open>t\<close> is laid out as the shape \<open>s\<close>
  and counts its nodes.  \<open>holds\<close>: nothing is allocated from \<open>fresh\<close> on, every
  object is laid out as its shape, and two objects share no node.
\<close>

fun bst :: "('a \<Rightarrow> 'a \<Rightarrow> bool) \<Rightarrow> ('a \<Rightarrow> 'a \<Rightarrow> bool) \<Rightarrow> 'a shape \<Rightarrow> bool" where
  "bst cmp eq Leaf = True"
| "bst cmp eq (Br l a x r) =
     ((\<forall>y \<in> set (elems l). \<not> eq y x \<and> cmp y x) \<and>
      (\<forall>y \<in> set (elems r). \<not> eq y x \<and> \<not> cmp y x) \<and>
      bst cmp eq l \<and> bst cmp eq r)"

definition obj_ok ::
  "('a \<Rightarrow> 'a \<Rightarrow> bool) \<Rightarrow> ('a \<Rightarrow> 'a \<Rightarrow> bool) \<Rightarrow> (addr \<Rightarrow> 'a Node option) \<Rightarrow> 'a BinaryTree \<Rightarrow> 'a shape \<Rightarrow> bool"
where
  "obj_ok cmp eq c t s =
     (root t = ptr s \<and> laid c s \<and> sep s \<and> node_count t = nodes s \<and>
      compare t = cmp \<and> equal t = eq \<and> bst cmp eq s)"

definition holds ::
  "('a \<Rightarrow> 'a \<Rightarrow> bool) \<Rightarrow> ('a \<Rightarrow> 'a \<Rightarrow> bool) \<Rightarrow> 'a world \<Rightarrow> (oid \<Rightarrow> 'a shape) \<Rightarrow> bool"
where
  "holds cmp eq w sh =
     ((\<forall>a. fresh w \<le> a \<longrightarrow> cells w a = None) \<and>
      (\<forall>i t. objs w i = Some t \<longrightarrow> obj_ok cmp eq (cells w) t (sh i)) \<and>
      (\<forall>i j. i \<noteq> j \<longrightarrow> objs w i \<noteq> None \<longrightarrow> objs w j \<noteq> None \<longrightarrow>
         addrs (sh i) \<inter> addrs (sh j) = {}))"

section \<open>Running the operations\<close>

text \<open>
  The sequencing operators on the three kinds of outcome, field access as a case
  distinction on the store, and the equations that run an operation or a client
  program on a concrete store.
\<close>

lemma then_do_simps [simp]:
  "then_do (Some (Return x s)) f = f x s"
  "then_do (Some (Throw e s)) f = Some (Throw e s)"
  "then_do (Some Undefined) f = Some Undefined"
  "then_do None f = None"
  by (simp_all add: then_do_def)

lemma try_catch_simps [simp]:
  "try_catch (Some (Return x s)) h = Some (Return x s)"
  "try_catch (Some (Throw e s)) h = h e s"
  "try_catch (Some Undefined) h = Some Undefined"
  "try_catch None h = None"
  by (simp_all add: try_catch_def)

lemma get_obj_simp [simp]:
  "get_obj i w = (case objs w i of None \<Rightarrow> Some Undefined | Some t \<Rightarrow> Some (Return t w))"
  by (simp add: get_obj_def)

lemma get_node_simps [simp]:
  "get_node (Some a) w = (case cells w a of None \<Rightarrow> Some Undefined | Some n \<Rightarrow> Some (Return n w))"
  "get_node None w = Some Undefined"
  by (simp_all add: get_node_def)

lemmas client = run.simps legal.simps step.simps init_def

lemmas exec =
  new_Node_def delete_Node_def set_left_def set_right_def set_root_def set_node_count_def
  insert_node.simps exists_node.simps find_subtree.simps print_in_order.simps
  destroy_tree.simps copy_subtree.simps count_nodes.simps BinaryTree_default_def
  insert_tree_def BinaryTree_range_def BinaryTree_copy_def operator_assign_def
  BinaryTree_destroy_def exists_tree_def size_tree_def subtree_def operator_out_def
  leftmost.simps ancestor_loop.simps findNext_def const_iterator_new_def operator_deref_def
  operator_incr_def operator_eq_def operator_neq_def begin_tree_def end_tree_def
  printIF_loop.simps printIF_def iterate_loop.simps iterate_def

section \<open>Trees in the store\<close>

text \<open>
  What the read-only traversals (\<^verbatim>\<open>count_nodes\<close>, \<^verbatim>\<open>print_in_order\<close>, \<^verbatim>\<open>exists\<close>,
  \<^verbatim>\<open>find_subtree\<close>) return on a tree that the store holds as a given shape.
\<close>

lemma render_simps [simp]:
  "render [] = []" "render (x # xs) = Val x # Text '' '' # render xs"
  "render (xs @ ys) = render xs @ render ys"
  by (simp_all add: render_def)

lemma laid_frame: "laid c s \<Longrightarrow> (\<And>a. a \<in> addrs s \<Longrightarrow> c' a = c a) \<Longrightarrow> laid c' s"
  by (induction s) auto

lemma heap_of_outside: "a \<notin> addrs s \<Longrightarrow> heap_of s a = None"
  by (induction s) auto

lemma heap_of_inside: "a \<in> addrs s \<Longrightarrow> heap_of s a \<noteq> None"
  by (induction s) auto

lemma dom_heap_of [simp]: "dom (heap_of s) = addrs s"
  using heap_of_outside heap_of_inside by (fastforce simp: dom_def)

lemma overlay_outside [simp]: "a \<notin> addrs s \<Longrightarrow> (c ++ heap_of s) a = c a"
  by (simp add: map_add_dom_app_simps)

lemma overlay_inside [simp]: "a \<in> addrs s \<Longrightarrow> (c ++ heap_of s) a = heap_of s a"
  by (simp add: map_add_dom_app_simps)

lemma laid_heap_of: "sep s \<Longrightarrow> laid (heap_of s) s"
proof (induction s)
  case Leaf
  show ?case by simp
next
  case (Br l a x r)
  have L: "laid (heap_of (Br l a x r)) l"
  proof (rule laid_frame [of "heap_of l"])
    show "laid (heap_of l) l" using Br by simp
    fix b assume "b \<in> addrs l"
    then have "b \<noteq> a" using Br.prems by auto
    then show "heap_of (Br l a x r) b = heap_of l b" using \<open>b \<in> addrs l\<close> by simp
  qed
  have R: "laid (heap_of (Br l a x r)) r"
  proof (rule laid_frame [of "heap_of r"])
    show "laid (heap_of r) r" using Br by simp
    fix b assume "b \<in> addrs r"
    then have "b \<noteq> a" "b \<notin> addrs l" using Br.prems by auto
    then show "heap_of (Br l a x r) b = heap_of r b" by simp
  qed
  have "heap_of (Br l a x r) a = Some \<lparr>data = x, left = ptr l, right = ptr r\<rparr>"
    by simp
  then show ?case using L R by (simp only: laid.simps)
qed

lemma laid_overlay: "sep s \<Longrightarrow> laid (c ++ heap_of s) s"
  by (rule laid_frame [OF laid_heap_of]) simp_all

lemma laid_eq_heap_of: "laid c s \<Longrightarrow> sep s \<Longrightarrow> a \<in> addrs s \<Longrightarrow> c a = heap_of s a"
proof (induction s)
  case Leaf
  then show ?case by simp
next
  case (Br l b x r)
  show ?case
  proof (cases "a = b")
    case True
    then show ?thesis using Br.prems by simp
  next
    case False
    show ?thesis
    proof (cases "a \<in> addrs r")
      case True
      then show ?thesis using Br False by simp
    next
      case nr: False
      then have "a \<in> addrs l" using Br.prems False by simp
      then show ?thesis using Br False nr by simp
    qed
  qed
qed

lemma overlay_same: "laid c s \<Longrightarrow> sep s \<Longrightarrow> c ++ heap_of s = c"
proof
  fix a assume "laid c s" "sep s"
  then show "(c ++ heap_of s) a = c a"
    by (cases "a \<in> addrs s") (simp_all add: laid_eq_heap_of)
qed

lemma count_nodes_laid:
  "laid (cells w) s \<Longrightarrow> count_nodes (ptr s) w = Some (Return (nodes s) w)"
proof (induction s)
  case Leaf
  show ?case by (subst count_nodes.simps) simp
next
  case (Br l a x r)
  then show ?case by (subst count_nodes.simps) simp
qed

lemma print_in_order_laid:
  "laid (cells w) s \<Longrightarrow> print_in_order (ptr s) os w = Some (Return (os @ render (elems s)) w)"
proof (induction s arbitrary: os)
  case Leaf
  show ?case by (subst print_in_order.simps) simp
next
  case (Br l a x r)
  then show ?case by (subst print_in_order.simps) simp
qed

lemma exists_node_laid:
  "laid (cells w) s \<Longrightarrow> objs w this = Some t \<Longrightarrow>
   exists_node this (ptr s) v w = Some (Return (found (compare t) (equal t) v s \<noteq> Leaf) w)"
proof (induction s)
  case Leaf
  show ?case by (subst exists_node.simps) simp
next
  case (Br l a x r)
  then show ?case by (subst exists_node.simps) simp
qed

lemma find_subtree_laid:
  "laid (cells w) s \<Longrightarrow> objs w this = Some t \<Longrightarrow>
   find_subtree this (ptr s) v w = Some (Return (ptr (found (compare t) (equal t) v s)) w)"
proof (induction s)
  case Leaf
  show ?case by (subst find_subtree.simps) simp
next
  case (Br l a x r)
  then show ?case by (subst find_subtree.simps) simp
qed

lemma found_laid: "laid c s \<Longrightarrow> laid c (found cmp eq v s)"
  by (induction s) auto

lemma found_sep: "sep s \<Longrightarrow> sep (found cmp eq v s)"
  by (induction s) auto

lemma found_addrs: "addrs (found cmp eq v s) \<subseteq> addrs s"
  by (induction s) auto
section \<open>Insertion and destruction\<close>

text \<open>
  The private \<^verbatim>\<open>insert\<close> on a tree laid out as a shape: it throws on a duplicate
  along its descent, links a new node otherwise, and counts the node before it
  allocates it.  \<^verbatim>\<open>destroy_tree\<close> releases the nodes of the shape and no other.
\<close>

lemma addrs_ins [simp]: "addrs (ins cmp v f s) = insert f (addrs s)"
  by (induction s) auto

lemma nodes_ins [simp]: "nodes (ins cmp v f s) = Suc (nodes s)"
  by (induction s) auto

lemma sep_ins: "sep s \<Longrightarrow> f \<notin> addrs s \<Longrightarrow> sep (ins cmp v f s)"
  by (induction s) auto

lemma ptr_ins_Br [simp]: "ptr (ins cmp v f (Br l a x r)) = Some a"
  by simp

lemma overlay_left:
  assumes "laid c r" "sep r" "a \<notin> addrs l'" "a \<notin> addrs r" "addrs l' \<inter> addrs r = {}"
  shows "(c ++ heap_of l')(a \<mapsto> \<lparr>data = x, left = ptr l', right = ptr r\<rparr>) = c ++ heap_of (Br l' a x r)"
proof
  fix b
  show "((c ++ heap_of l')(a \<mapsto> \<lparr>data = x, left = ptr l', right = ptr r\<rparr>)) b = (c ++ heap_of (Br l' a x r)) b"
  proof (cases "b = a")
    case True
    then show ?thesis by simp
  next
    case ba: False
    show ?thesis
    proof (cases "b \<in> addrs l'")
      case True
      then show ?thesis using ba by simp
    next
      case bl: False
      show ?thesis
      proof (cases "b \<in> addrs r")
        case True
        then show ?thesis using ba bl assms laid_eq_heap_of [of c r b] by simp
      next
        case False
        then show ?thesis using ba bl by simp
      qed
    qed
  qed
qed

lemma overlay_right:
  assumes "laid c l" "sep l" "a \<notin> addrs l" "a \<notin> addrs r'" "addrs l \<inter> addrs r' = {}"
  shows "(c ++ heap_of r')(a \<mapsto> \<lparr>data = x, left = ptr l, right = ptr r'\<rparr>) = c ++ heap_of (Br l a x r')"
proof
  fix b
  show "((c ++ heap_of r')(a \<mapsto> \<lparr>data = x, left = ptr l, right = ptr r'\<rparr>)) b = (c ++ heap_of (Br l a x r')) b"
  proof (cases "b = a")
    case True
    then show ?thesis by simp
  next
    case ba: False
    show ?thesis
    proof (cases "b \<in> addrs l")
      case True
      then have "b \<notin> addrs r'" using assms by auto
      then show ?thesis using ba True assms laid_eq_heap_of [of c l b] by simp
    next
      case bl: False
      show ?thesis
      proof (cases "b \<in> addrs r'")
        case True
        then show ?thesis using ba bl by simp
      next
        case False
        then show ?thesis using ba bl by simp
      qed
    qed
  qed
qed

lemma insert_node_dup:
  "laid (cells w) s \<Longrightarrow> objs w this = Some t \<Longrightarrow> dup (compare t) (equal t) v s \<Longrightarrow>
   insert_node this (ptr s) v w = Some (Throw runtime_error w)"
proof (induction s)
  case Leaf
  then show ?case by simp
next
  case (Br l a x r)
  then show ?case by (subst insert_node.simps) (simp split: if_splits)
qed

lemma insert_node_ok:
  assumes "objs w this = Some t" and "avail w \<noteq> 0"
  shows "laid (cells w) s \<Longrightarrow> sep s \<Longrightarrow> fresh w \<notin> addrs s \<Longrightarrow>
     \<not> dup (compare t) (equal t) v s \<Longrightarrow>
     insert_node this (ptr s) v w =
       Some (Return (ptr (ins (compare t) v (fresh w) s))
         (w\<lparr>cells := cells w ++ heap_of (ins (compare t) v (fresh w) s),
            fresh := Suc (fresh w), avail := avail w - 1,
            objs := (objs w)(this \<mapsto> t\<lparr>node_count := Suc (node_count t)\<rparr>)\<rparr>))"
proof (induction s)
  case Leaf
  have "cells w ++ heap_of (Br Leaf (fresh w) v Leaf)
        = (cells w)(fresh w \<mapsto> \<lparr>data = v, left = None, right = None\<rparr>)"
    by (rule ext) (simp add: map_add_def)
  then show ?case using assms
    by (subst insert_node.simps) (simp add: new_Node_def)
next
  case (Br l a x r)
  let ?f = "fresh w"
  have a: "cells w a = Some \<lparr>data = x, left = ptr l, right = ptr r\<rparr>"
    using Br.prems by simp
  have ne: "\<not> equal t v x" using Br.prems by (simp split: if_splits)
  show ?case
  proof (cases "compare t v x")
    case True
    then have nd: "\<not> dup (compare t) (equal t) v l" using Br.prems ne by simp
    let ?l = "ins (compare t) v ?f l"
    have ih: "insert_node this (ptr l) v w =
       Some (Return (ptr ?l)
         (w\<lparr>cells := cells w ++ heap_of ?l,
            fresh := Suc ?f, avail := avail w - 1,
            objs := (objs w)(this \<mapsto> t\<lparr>node_count := Suc (node_count t)\<rparr>)\<rparr>))"
      by (rule Br.IH(1)) (use Br.prems nd in simp_all)
    have al: "a \<notin> addrs ?l" using Br.prems by auto
    have eq: "(cells w ++ heap_of ?l)(a \<mapsto> \<lparr>data = x, left = ptr ?l, right = ptr r\<rparr>)
              = cells w ++ heap_of (Br ?l a x r)"
      using Br.prems by (intro overlay_left) auto
    show ?thesis
      using assms a ne True al ih eq
      by (subst insert_node.simps) (simp add: set_left_def)
  next
    case False
    then have nd: "\<not> dup (compare t) (equal t) v r" using Br.prems ne by simp
    let ?r = "ins (compare t) v ?f r"
    have ih: "insert_node this (ptr r) v w =
       Some (Return (ptr ?r)
         (w\<lparr>cells := cells w ++ heap_of ?r,
            fresh := Suc ?f, avail := avail w - 1,
            objs := (objs w)(this \<mapsto> t\<lparr>node_count := Suc (node_count t)\<rparr>)\<rparr>))"
      by (rule Br.IH(2)) (use Br.prems nd in simp_all)
    have ar: "a \<notin> addrs ?r" using Br.prems by auto
    have eq: "(cells w ++ heap_of ?r)(a \<mapsto> \<lparr>data = x, left = ptr l, right = ptr ?r\<rparr>)
              = cells w ++ heap_of (Br l a x ?r)"
      using Br.prems by (intro overlay_right) auto
    show ?thesis
      using assms a ne False ar ih eq
      by (subst insert_node.simps) (simp add: set_right_def)
  qed
qed

lemma insert_node_full:
  assumes "objs w this = Some t" and "avail w = 0"
  shows "laid (cells w) s \<Longrightarrow> \<not> dup (compare t) (equal t) v s \<Longrightarrow>
     insert_node this (ptr s) v w =
       Some (Throw bad_alloc (w\<lparr>objs := (objs w)(this \<mapsto> t\<lparr>node_count := Suc (node_count t)\<rparr>)\<rparr>))"
proof (induction s)
  case Leaf
  show ?case using assms by (subst insert_node.simps) (simp add: new_Node_def)
next
  case (Br l a x r)
  have a: "cells w a = Some \<lparr>data = x, left = ptr l, right = ptr r\<rparr>"
    using Br.prems by simp
  have ne: "\<not> equal t v x" using Br.prems by (simp split: if_splits)
  show ?case
  proof (cases "compare t v x")
    case True
    then have "insert_node this (ptr l) v w =
       Some (Throw bad_alloc (w\<lparr>objs := (objs w)(this \<mapsto> t\<lparr>node_count := Suc (node_count t)\<rparr>)\<rparr>))"
      by (intro Br.IH(1)) (use Br.prems ne in simp_all)
    then show ?thesis using assms a ne True by (subst insert_node.simps) simp
  next
    case False
    then have "insert_node this (ptr r) v w =
       Some (Throw bad_alloc (w\<lparr>objs := (objs w)(this \<mapsto> t\<lparr>node_count := Suc (node_count t)\<rparr>)\<rparr>))"
      by (intro Br.IH(2)) (use Br.prems ne in simp_all)
    then show ?thesis using assms a ne False by (subst insert_node.simps) simp
  qed
qed

lemma release_empty [simp]: "release {} c = c"
  by (rule ext) (simp add: release_def)

lemma laid_release: "laid c s \<Longrightarrow> addrs s \<inter> A = {} \<Longrightarrow> laid (release A c) s"
  by (rule laid_frame [of c]) (auto simp: release_def)

lemma destroy_tree_laid:
  "laid (cells w) s \<Longrightarrow> sep s \<Longrightarrow>
   destroy_tree (ptr s) w = Some (Return () (w\<lparr>cells := release (addrs s) (cells w)\<rparr>))"
proof (induction s arbitrary: w)
  case Leaf
  show ?case by (subst destroy_tree.simps) simp
next
  case (Br l a x r)
  let ?w1 = "w\<lparr>cells := release (addrs l) (cells w)\<rparr>"
  let ?w2 = "w\<lparr>cells := release (addrs r) (release (addrs l) (cells w))\<rparr>"
  have a: "cells w a = Some \<lparr>data = x, left = ptr l, right = ptr r\<rparr>"
    using Br.prems by simp
  have l: "destroy_tree (ptr l) w = Some (Return () ?w1)"
    by (rule Br.IH(1)) (use Br.prems in simp_all)
  have a1: "release (addrs l) (cells w) a = Some \<lparr>data = x, left = ptr l, right = ptr r\<rparr>"
    using Br.prems by (simp add: release_def)
  have "laid (cells ?w1) r"
    using Br.prems by (simp add: laid_release Int_commute)
  then have "destroy_tree (ptr r) ?w1 = Some (Return () (?w1\<lparr>cells := release (addrs r) (cells ?w1)\<rparr>))"
    by (rule Br.IH(2)) (use Br.prems in simp)
  then have r: "destroy_tree (ptr r) ?w1 = Some (Return () ?w2)"
    by simp
  have a2: "release (addrs r) (release (addrs l) (cells w)) a = Some \<lparr>data = x, left = ptr l, right = ptr r\<rparr>"
    using Br.prems by (simp add: release_def)
  have d: "delete_Node a ?w2 = Some (Return () (?w2\<lparr>cells := (cells ?w2)(a := None)\<rparr>))"
    using a2 by (simp add: delete_Node_def)
  have "(release (addrs r) (release (addrs l) (cells w)))(a := None) = release (addrs (Br l a x r)) (cells w)"
    by (rule ext) (simp add: release_def)
  then have e: "?w2\<lparr>cells := (cells ?w2)(a := None)\<rparr> = w\<lparr>cells := release (addrs (Br l a x r)) (cells w)\<rparr>"
    by simp
  have "destroy_tree (Some a) w = delete_Node a ?w2"
    by (subst destroy_tree.simps) (simp add: a l a1 r)
  then show ?case
    by (simp only: d e ptr.simps)
qed
section \<open>Copying with a bounded number of allocations\<close>

text \<open>
  \<^verbatim>\<open>copy_subtree\<close> on a source laid out as a shape: it builds the partial copy
  \<open>pcopy\<close> under the destination, returns when the copy is complete and throws
  \<^verbatim>\<open>std::bad_alloc\<close> with the partial copy in place otherwise.
\<close>

lemma nodes_pcopy [simp]: "nodes (pcopy k f s) = min k (nodes s)"
  by (induction s arbitrary: k f) auto

lemma addrs_pcopy [simp]: "addrs (pcopy k f s) = {f ..< f + min k (nodes s)}"
  by (induction s arbitrary: k f) (auto simp: min_def)

lemma sep_pcopy [simp]: "sep (pcopy k f s)"
  by (induction s arbitrary: k f) (auto simp: min_def)

lemma elems_pcopy: "nodes s \<le> k \<Longrightarrow> elems (pcopy k f s) = elems s"
  by (induction s arbitrary: k f) auto

lemma store_ref_ok: "ref_ok dest w \<Longrightarrow> store_ref dest p w = Some (Return () (write_ref dest p w))"
proof (cases dest)
  case (RootRef i)
  assume "ref_ok dest w"
  then obtain t where t: "objs w i = Some t" using RootRef by auto
  have "(objs w)(i \<mapsto> t\<lparr>root := p\<rparr>) = wobjs (RootRef i) p (objs w)"
    by (rule ext) (simp add: t)
  moreover have "wcells (RootRef i) p (cells w) = cells w"
    by (rule ext) simp
  ultimately show ?thesis using RootRef t by (simp add: write_ref_def set_root_def)
next
  case (LeftRef d)
  assume "ref_ok dest w"
  then obtain n where n: "cells w d = Some n" using LeftRef by auto
  have "(cells w)(d \<mapsto> n\<lparr>left := p\<rparr>) = wcells (LeftRef d) p (cells w)"
    by (rule ext) (simp add: n)
  moreover have "wobjs (LeftRef d) p (objs w) = objs w"
    by (rule ext) simp
  ultimately show ?thesis using LeftRef n by (simp add: write_ref_def set_left_def)
next
  case (RightRef d)
  assume "ref_ok dest w"
  then obtain n where n: "cells w d = Some n" using RightRef by auto
  have "(cells w)(d \<mapsto> n\<lparr>right := p\<rparr>) = wcells (RightRef d) p (cells w)"
    by (rule ext) (simp add: n)
  moreover have "wobjs (RightRef d) p (objs w) = objs w"
    by (rule ext) simp
  ultimately show ?thesis using RightRef n by (simp add: write_ref_def set_right_def)
qed

lemma wcells_other: "b \<notin> ref_addr dest \<Longrightarrow> wcells dest p c b = c b"
  by (cases dest) auto

lemma wcells_cong: "(\<And>d. d \<in> ref_addr dest \<Longrightarrow> c' d = c d) \<Longrightarrow> b \<in> ref_addr dest \<Longrightarrow>
  wcells dest p c' b = wcells dest p c b"
  by (cases dest) auto

lemma wcells_None: "wcells dest p c b = None \<longleftrightarrow> c b = None"
  by (cases dest) auto

lemma wcells_overlay:
  "ref_addr dest \<inter> addrs S = {} \<Longrightarrow> wcells dest p (c ++ heap_of S) = wcells dest p c ++ heap_of S"
proof (rule ext)
  fix b assume d: "ref_addr dest \<inter> addrs S = {}"
  show "wcells dest p (c ++ heap_of S) b = (wcells dest p c ++ heap_of S) b"
  proof (cases "b \<in> addrs S")
    case True
    then have "b \<notin> ref_addr dest" using d by auto
    then show ?thesis using True by (simp add: wcells_other)
  next
    case False
    then show ?thesis using d by (cases dest) auto
  qed
qed

lemma wcells_upd:
  "f \<notin> ref_addr dest \<Longrightarrow> wcells dest p (c(f \<mapsto> n)) = (wcells dest p c)(f \<mapsto> n)"
  by (rule ext) (cases dest; auto)

lemma grow_left:
  assumes "f \<notin> addrs L"
  shows "(C(f \<mapsto> \<lparr>data = x, left = None, right = None\<rparr>) ++ heap_of L)
            (f \<mapsto> \<lparr>data = x, left = ptr L, right = None\<rparr>)
         = C ++ heap_of (Br L f x Leaf)"
proof (rule ext)
  fix b
  show "((C(f \<mapsto> \<lparr>data = x, left = None, right = None\<rparr>) ++ heap_of L)
            (f \<mapsto> \<lparr>data = x, left = ptr L, right = None\<rparr>)) b
         = (C ++ heap_of (Br L f x Leaf)) b"
    using assms by (cases "b = f"; cases "b \<in> addrs L") simp_all
qed

lemma grow_right:
  assumes "f \<notin> addrs L" "f \<notin> addrs R" "addrs L \<inter> addrs R = {}"
  shows "(C ++ heap_of (Br L f x Leaf) ++ heap_of R)
            (f \<mapsto> \<lparr>data = x, left = ptr L, right = ptr R\<rparr>)
         = C ++ heap_of (Br L f x R)"
proof (rule ext)
  fix b
  have "b \<in> addrs L \<Longrightarrow> b \<notin> addrs R" using assms by auto
  then show "((C ++ heap_of (Br L f x Leaf) ++ heap_of R)
            (f \<mapsto> \<lparr>data = x, left = ptr L, right = ptr R\<rparr>)) b
         = (C ++ heap_of (Br L f x R)) b"
    using assms by (cases "b = f"; cases "b \<in> addrs L"; cases "b \<in> addrs R") simp_all
qed

lemma write_ref_sel [simp]:
  "cells (write_ref dest p w) = wcells dest p (cells w)"
  "objs (write_ref dest p w) = wobjs dest p (objs w)"
  "fresh (write_ref dest p w) = fresh w"
  "avail (write_ref dest p w) = avail w"
  by (simp_all add: write_ref_def)

lemma grown_sel [simp]:
  "cells (grown S w) = cells w ++ heap_of S"
  "objs (grown S w) = objs w"
  "fresh (grown S w) = fresh w + nodes S"
  "avail (grown S w) = avail w - nodes S"
  by (simp_all add: grown_def)

lemma wobjs_child [simp]: "wobjs (LeftRef d) p ob = ob" "wobjs (RightRef d) p ob = ob"
  by (rule ext, simp)+

text \<open>The node just allocated and linked, then the copy of the left subtree hung under it.\<close>

lemma copy_world_left:
  assumes k: "avail w \<noteq> 0" and fd: "fresh w \<notin> ref_addr dest"
    and W2: "W2 = write_ref dest (Some (fresh w))
                    (w\<lparr>cells := (cells w)(fresh w \<mapsto> \<lparr>data = x, left = None, right = None\<rparr>),
                       fresh := Suc (fresh w), avail := avail w - Suc 0\<rparr>)"
    and dd: "\<forall>d \<in> ref_addr dest. d < fresh w"
  shows "copy_world (LeftRef (fresh w)) l W2 =
         write_ref dest (Some (fresh w))
           (grown (Br (pcopy (avail w - Suc 0) (Suc (fresh w)) l) (fresh w) x Leaf) w)"
proof -
  let ?f = "fresh w"
  let ?L = "pcopy (avail w - Suc 0) (Suc ?f) l"
  let ?C = "wcells dest (Some ?f) (cells w)"
  have fL: "?f \<notin> addrs ?L" by simp
  have dL: "ref_addr dest \<inter> addrs (Br ?L ?f x Leaf) = {}"
    using fd dd by (fastforce simp: min_def)
  have c2: "cells W2 = ?C(?f \<mapsto> \<lparr>data = x, left = None, right = None\<rparr>)"
    using fd by (simp add: W2 wcells_upd)
  have sel: "fresh W2 = Suc ?f" "avail W2 = avail w - Suc 0" "objs W2 = wobjs dest (Some ?f) (objs w)"
    by (simp_all add: W2)
  have rhs: "wcells dest (Some ?f) (cells w ++ heap_of (Br ?L ?f x Leaf)) = ?C ++ heap_of (Br ?L ?f x Leaf)"
    using dL by (rule wcells_overlay)
  show ?thesis
  proof (cases "?L = Leaf")
    case True
    have e: "?C(?f \<mapsto> \<lparr>data = x, left = None, right = None\<rparr>) = ?C ++ heap_of (Br Leaf ?f x Leaf)"
      by (rule ext) (simp add: map_add_def)
    have rhs': "wcells dest (Some ?f) (cells w ++ heap_of (Br Leaf ?f x Leaf)) = ?C ++ heap_of (Br Leaf ?f x Leaf)"
      using rhs True by simp
    show ?thesis
      using True k by (intro world.equality) (simp_all add: copy_world_def sel c2 rhs' e)
  next
    case False
    have "wcells (LeftRef ?f) (ptr ?L) (?C(?f \<mapsto> \<lparr>data = x, left = None, right = None\<rparr>) ++ heap_of ?L)
          = (?C(?f \<mapsto> \<lparr>data = x, left = None, right = None\<rparr>) ++ heap_of ?L)
              (?f \<mapsto> \<lparr>data = x, left = ptr ?L, right = None\<rparr>)"
      by (rule ext) simp
    then have "wcells (LeftRef ?f) (ptr ?L) (?C(?f \<mapsto> \<lparr>data = x, left = None, right = None\<rparr>) ++ heap_of ?L)
          = ?C ++ heap_of (Br ?L ?f x Leaf)"
      using grow_left [OF fL] by simp
    then show ?thesis
      using False k by (intro world.equality) (simp_all add: copy_world_def sel c2 rhs)
  qed
qed

lemma pcopy_0 [simp]: "pcopy 0 f s = Leaf"
  by (cases s) simp_all

lemma hang_right:
  assumes fL: "f \<notin> addrs L" and fR: "f \<notin> addrs R" and LR: "addrs L \<inter> addrs R = {}"
    and dS: "ref_addr dest \<inter> addrs (Br L f x R) = {}"
  shows "write_ref (RightRef f) (ptr R) (grown R (write_ref dest (Some f) (grown (Br L f x Leaf) w)))
         = write_ref dest (Some f) (grown (Br L f x R) w)"
proof -
  let ?C = "wcells dest (Some f) (cells w)"
  have dL: "ref_addr dest \<inter> addrs (Br L f x Leaf) = {}"
    using dS by auto
  have cV: "wcells dest (Some f) (cells w ++ heap_of (Br L f x Leaf)) = ?C ++ heap_of (Br L f x Leaf)"
    using dL by (rule wcells_overlay)
  have cS: "wcells dest (Some f) (cells w ++ heap_of (Br L f x R)) = ?C ++ heap_of (Br L f x R)"
    using dS by (rule wcells_overlay)
  have "wcells (RightRef f) (ptr R) (?C ++ heap_of (Br L f x Leaf) ++ heap_of R)
        = (?C ++ heap_of (Br L f x Leaf) ++ heap_of R)
            (f \<mapsto> \<lparr>data = x, left = ptr L, right = ptr R\<rparr>)"
    using fR by (intro ext) simp
  then have c: "wcells (RightRef f) (ptr R) (?C ++ heap_of (Br L f x Leaf) ++ heap_of R)
        = ?C ++ heap_of (Br L f x R)"
    using grow_right [OF fL fR LR] by simp
  show ?thesis
    by (intro world.equality) (simp_all add: cV cS c)
qed

lemma copy_world_right:
  assumes k: "avail w \<noteq> 0" and fd: "fresh w \<notin> ref_addr dest"
    and dd: "\<forall>d \<in> ref_addr dest. d < fresh w"
    and full: "nodes l \<le> avail w - Suc 0"
  shows "copy_world (RightRef (fresh w)) r
           (write_ref dest (Some (fresh w))
              (grown (Br (pcopy (avail w - Suc 0) (Suc (fresh w)) l) (fresh w) x Leaf) w))
         = copy_world dest (Br l a x r) w"
proof -
  let ?f = "fresh w"
  let ?L = "pcopy (avail w - Suc 0) (Suc ?f) l"
  let ?R = "pcopy (avail w - Suc 0 - nodes l) (Suc ?f + nodes l) r"
  let ?C = "wcells dest (Some ?f) (cells w)"
  let ?V = "write_ref dest (Some ?f) (grown (Br ?L ?f x Leaf) w)"
  have nL: "nodes ?L = nodes l" using full by simp
  have fL: "?f \<notin> addrs ?L" and fR: "?f \<notin> addrs ?R" by simp_all
  have LR: "addrs ?L \<inter> addrs ?R = {}" using full by (auto simp: min_def)
  have dL: "ref_addr dest \<inter> addrs (Br ?L ?f x Leaf) = {}"
    using fd dd by (fastforce simp: min_def)
  have dS: "ref_addr dest \<inter> addrs (Br ?L ?f x ?R) = {}"
    using fd dd by (fastforce simp: min_def)
  have cV: "wcells dest (Some ?f) (cells w ++ heap_of (Br ?L ?f x Leaf)) = ?C ++ heap_of (Br ?L ?f x Leaf)"
    using dL by (rule wcells_overlay)
  have cS: "wcells dest (Some ?f) (cells w ++ heap_of (Br ?L ?f x ?R)) = ?C ++ heap_of (Br ?L ?f x ?R)"
    using dS by (rule wcells_overlay)
  have selV: "fresh ?V = Suc ?f + nodes l" "avail ?V = avail w - Suc 0 - nodes l"
    using nL by simp_all
  have lhs: "copy_world (RightRef ?f) r ?V =
             (if ?R = Leaf then ?V else write_ref (RightRef ?f) (ptr ?R) (grown ?R ?V))"
    unfolding copy_world_def selV ..
  have rhs: "copy_world dest (Br l a x r) w = write_ref dest (Some ?f) (grown (Br ?L ?f x ?R) w)"
    using k by (simp add: copy_world_def)
  show ?thesis
  proof (cases "?R = Leaf")
    case True
    then show ?thesis unfolding lhs rhs by simp
  next
    case False
    have "write_ref (RightRef ?f) (ptr ?R) (grown ?R ?V) = write_ref dest (Some ?f) (grown (Br ?L ?f x ?R) w)"
      using fL fR LR dS by (rule hang_right)
    then show ?thesis unfolding lhs rhs using False by simp
  qed
qed

lemma copy_world_left_failed:
  assumes k: "avail w \<noteq> 0" and short: "\<not> nodes l \<le> avail w - Suc 0"
  shows "copy_world dest (Br l a x r) w =
         write_ref dest (Some (fresh w))
           (grown (Br (pcopy (avail w - Suc 0) (Suc (fresh w)) l) (fresh w) x Leaf) w)"
  using assms by (simp add: copy_world_def)

lemma copy_result_Leaf [simp]: "copy_result dest Leaf w = Return () w"
  by (simp add: copy_result_def copy_world_def)

lemma copy_subtree_laid:
  "laid (cells w) s \<Longrightarrow> \<forall>b \<in> addrs s. b < fresh w \<Longrightarrow> ref_ok dest w \<Longrightarrow>
   \<forall>d \<in> ref_addr dest. d < fresh w \<and> d \<notin> addrs s \<Longrightarrow>
   copy_subtree dest (ptr s) w = Some (copy_result dest s w)"
proof (induction s arbitrary: dest w)
  case Leaf
  show ?case by (subst copy_subtree.simps) simp
next
  case (Br l a x r)
  let ?f = "fresh w"
  let ?leaf = "\<lparr>data = x, left = None, right = None\<rparr>"
  have a: "cells w a = Some \<lparr>data = x, left = ptr l, right = ptr r\<rparr>"
    using Br.prems by simp
  have af: "a < ?f" and ad: "a \<notin> ref_addr dest" using Br.prems by auto
  have lt: "\<And>b. b \<in> addrs l \<Longrightarrow> b < ?f" "\<And>b. b \<in> addrs r \<Longrightarrow> b < ?f"
    using Br.prems(2) by auto
  have fd: "?f \<notin> ref_addr dest" and dd: "\<forall>d \<in> ref_addr dest. d < ?f"
    using Br.prems by auto
  show ?case
  proof (cases "avail w = 0")
    case True
    then show ?thesis using a
      by (subst copy_subtree.simps) (simp add: new_Node_def copy_result_def copy_world_def)
  next
    case k: False
    let ?W1 = "w\<lparr>cells := (cells w)(?f \<mapsto> ?leaf), fresh := Suc ?f, avail := avail w - Suc 0\<rparr>"
    let ?W2 = "write_ref dest (Some ?f) ?W1"
    let ?L = "pcopy (avail w - Suc 0) (Suc ?f) l"
    let ?V = "write_ref dest (Some ?f) (grown (Br ?L ?f x Leaf) w)"
    have new: "new_Node x w = Some (Return ?f ?W1)"
      using k by (simp add: new_Node_def)
    have "ref_ok dest ?W1"
      using Br.prems(3) fd by (cases dest) auto
    then have store: "store_ref dest (Some ?f) ?W1 = Some (Return () ?W2)"
      by (rule store_ref_ok)
    have c2: "cells ?W2 = (wcells dest (Some ?f) (cells w))(?f \<mapsto> ?leaf)"
      using fd by (simp add: wcells_upd)
    have a2: "cells ?W2 a = Some \<lparr>data = x, left = ptr l, right = ptr r\<rparr>"
      using a af ad unfolding c2 by (simp add: wcells_other)
    have left: "(if ptr l \<noteq> None then copy_subtree (LeftRef ?f) (ptr l) ?W2 else Some (Return () ?W2))
                = Some (copy_result (LeftRef ?f) l ?W2)"
    proof (cases l)
      case Leaf
      then show ?thesis by simp
    next
      case (Br l1 a1 x1 r1)
      have "copy_subtree (LeftRef ?f) (ptr l) ?W2 = Some (copy_result (LeftRef ?f) l ?W2)"
      proof (rule Br.IH(1))
        show "laid (cells ?W2) l"
          unfolding c2
        proof (rule laid_frame [of "cells w"])
          show "laid (cells w) l" using Br.prems by simp
          fix b assume "b \<in> addrs l"
          then have "b \<noteq> ?f" "b \<notin> ref_addr dest" using lt(1) [of b] Br.prems(4) by auto
          then show "((wcells dest (Some ?f) (cells w))(?f \<mapsto> ?leaf)) b = cells w b"
            by (simp add: wcells_other)
        qed
        show "\<forall>b\<in>addrs l. b < fresh ?W2" by (simp add: lt less_SucI)
        show "ref_ok (LeftRef ?f) ?W2" unfolding ref_ok.simps c2 by simp
        show "\<forall>d\<in>ref_addr (LeftRef ?f). d < fresh ?W2 \<and> d \<notin> addrs l"
          using lt(1) [of ?f] by auto
      qed
      then show ?thesis using Br by simp
    qed
    have w3: "copy_world (LeftRef ?f) l ?W2 = ?V"
      using k fd _ dd by (rule copy_world_left) simp
    have left': "(if ptr l \<noteq> None then copy_subtree (LeftRef ?f) (ptr l) ?W2 else Some (Return () ?W2))
                = Some (if nodes l \<le> avail w - Suc 0 then Return () ?V else Throw bad_alloc ?V)"
      unfolding left copy_result_def w3 by simp
    have step: "copy_subtree dest (Some a) w =
        then_do (Some (if nodes l \<le> avail w - Suc 0 then Return () ?V else Throw bad_alloc ?V))
          (\<lambda>_ w3. then_do (get_node (Some a) w3) (\<lambda>n3 _.
              if right n3 \<noteq> None then copy_subtree (RightRef ?f) (right n3) w3
              else Some (Return () w3)))"
      apply (subst copy_subtree.simps)
      apply (simp only: option.case a get_node_simps then_do_simps new Node.simps store)
      apply (simp only: a2 option.case then_do_simps Node.simps left')
      done
    show ?thesis
    proof (cases "nodes l \<le> avail w - Suc 0")
      case False
      then have "copy_subtree dest (Some a) w = Some (Throw bad_alloc ?V)"
        unfolding step by simp
      moreover have "copy_result dest (Br l a x r) w = Throw bad_alloc ?V"
        using copy_world_left_failed [OF k False, of dest a x r] False k
        by (simp add: copy_result_def)
      ultimately show ?thesis by simp
    next
      case full: True
      have nL: "nodes ?L = nodes l" using full by simp
      have dL: "ref_addr dest \<inter> addrs (Br ?L ?f x Leaf) = {}"
        using fd dd by (fastforce simp: min_def)
      have cV: "cells ?V = wcells dest (Some ?f) (cells w) ++ heap_of (Br ?L ?f x Leaf)"
        using dL by (simp add: wcells_overlay)
      have aV: "cells ?V a = Some \<lparr>data = x, left = ptr l, right = ptr r\<rparr>"
        unfolding cV using a af ad by (simp add: wcells_other)
      have right: "(if ptr r \<noteq> None then copy_subtree (RightRef ?f) (ptr r) ?V else Some (Return () ?V))
                = Some (copy_result (RightRef ?f) r ?V)"
      proof (cases r)
        case Leaf
        then show ?thesis by simp
      next
        case (Br l1 a1 x1 r1)
        have "copy_subtree (RightRef ?f) (ptr r) ?V = Some (copy_result (RightRef ?f) r ?V)"
        proof (rule Br.IH(2))
          show "laid (cells ?V) r"
            unfolding cV
          proof (rule laid_frame [of "cells w"])
            show "laid (cells w) r" using Br.prems by simp
            fix b assume "b \<in> addrs r"
            then have "b < ?f" "b \<notin> ref_addr dest" using lt(2) [of b] Br.prems(4) by auto
            then show "(wcells dest (Some ?f) (cells w) ++ heap_of (Br ?L ?f x Leaf)) b = cells w b"
              by (simp add: wcells_other)
          qed
          show "\<forall>b\<in>addrs r. b < fresh ?V"
          proof
            fix b assume "b \<in> addrs r"
            then have "b < ?f" by (rule lt(2))
            then show "b < fresh ?V" by simp
          qed
          show "ref_ok (RightRef ?f) ?V" unfolding ref_ok.simps cV by simp
          show "\<forall>d\<in>ref_addr (RightRef ?f). d < fresh ?V \<and> d \<notin> addrs r"
            using lt(2) [of ?f] by auto
        qed
        then show ?thesis using Br by simp
      qed
      have "copy_subtree dest (Some a) w =
            (if ptr r \<noteq> None then copy_subtree (RightRef ?f) (ptr r) ?V else Some (Return () ?V))"
        unfolding step using full
        by (simp only: if_True then_do_simps get_node_simps aV option.case Node.simps)
      then have res: "copy_subtree dest (Some a) w = Some (copy_result (RightRef ?f) r ?V)"
        unfolding right .
      have cw: "copy_world (RightRef ?f) r ?V = copy_world dest (Br l a x r) w"
        using k fd dd full by (rule copy_world_right)
      have "avail ?V = avail w - Suc 0 - nodes l" using nL by simp
      then have "copy_result (RightRef ?f) r ?V = copy_result dest (Br l a x r) w"
        unfolding copy_result_def cw using full k by auto
      then show ?thesis using res by simp
    qed
  qed
qed
section \<open>Properties of the invariant\<close>

lemma holds_free: "holds cmp eq w sh \<Longrightarrow> fresh w \<le> a \<Longrightarrow> cells w a = None"
  unfolding holds_def by blast

lemma holds_obj: "holds cmp eq w sh \<Longrightarrow> objs w i = Some t \<Longrightarrow> obj_ok cmp eq (cells w) t (sh i)"
  unfolding holds_def by blast

lemma holds_disj:
  "holds cmp eq w sh \<Longrightarrow> i \<noteq> j \<Longrightarrow> objs w i \<noteq> None \<Longrightarrow> objs w j \<noteq> None \<Longrightarrow>
   addrs (sh i) \<inter> addrs (sh j) = {}"
  unfolding holds_def by blast

lemma holdsI:
  assumes "\<And>a. fresh w \<le> a \<Longrightarrow> cells w a = None"
    and "\<And>i t. objs w i = Some t \<Longrightarrow> obj_ok cmp eq (cells w) t (sh i)"
    and "\<And>i j. i \<noteq> j \<Longrightarrow> objs w i \<noteq> None \<Longrightarrow> objs w j \<noteq> None \<Longrightarrow> addrs (sh i) \<inter> addrs (sh j) = {}"
  shows "holds cmp eq w sh"
  unfolding holds_def using assms by blast

lemma laid_allocated: "laid c s \<Longrightarrow> a \<in> addrs s \<Longrightarrow> c a \<noteq> None"
  by (induction s) auto

lemma holds_below:
  assumes "holds cmp eq w sh" "objs w i = Some t" "a \<in> addrs (sh i)"
  shows "a < fresh w"
proof (rule ccontr)
  assume "\<not> a < fresh w"
  then have "cells w a = None" using assms(1) by (simp add: holds_free)
  moreover have "laid (cells w) (sh i)" using holds_obj [OF assms(1,2)] by (simp add: obj_ok_def)
  ultimately show False using laid_allocated assms(3) by blast
qed

lemma elems_ins: "set (elems (ins cmp v f s)) = insert v (set (elems s))"
  by (induction s) auto

lemma bst_ins: "bst cmp eq s \<Longrightarrow> \<not> dup cmp eq v s \<Longrightarrow> bst cmp eq (ins cmp v f s)"
  by (induction s) (auto simp: elems_ins split: if_splits)

lemma overlay_Leaf [simp]: "c ++ heap_of Leaf = c"
  by (rule ext) (simp add: map_add_def)

lemma obj_ok_frame:
  "obj_ok cmp eq c t s \<Longrightarrow> (\<And>a. a \<in> addrs s \<Longrightarrow> c' a = c a) \<Longrightarrow> obj_ok cmp eq c' t s"
  unfolding obj_ok_def using laid_frame [of c s c'] by blast

lemma holds_grow:
  assumes h: "holds cmp eq w sh"
    and S: "sep S" "bst cmp eq S"
    and own: "addrs S \<subseteq> (if objs w i = None then {} else addrs (sh i)) \<union> {fresh w ..< f'}"
    and ff: "fresh w \<le> f'"
    and t': "root t' = ptr S" "node_count t' = nodes S" "compare t' = cmp" "equal t' = eq"
  shows "holds cmp eq
           (w\<lparr>cells := cells w ++ heap_of S, fresh := f', avail := k', objs := (objs w)(i \<mapsto> t')\<rparr>)
           (sh(i := S))"
proof -
  have S_cases: "(objs w i \<noteq> None \<and> a \<in> addrs (sh i)) \<or> (fresh w \<le> a \<and> a < f')" if "a \<in> addrs S" for a
  proof -
    have "a \<in> (if objs w i = None then {} else addrs (sh i)) \<union> {fresh w ..< f'}"
      using own that by blast
    then show ?thesis by (cases "objs w i = None") auto
  qed
  have other: "addrs (sh j) \<inter> addrs S = {}" if ji: "j \<noteq> i" and oj: "objs w j = Some tj" for j tj
  proof -
    have "a \<notin> addrs S" if a: "a \<in> addrs (sh j)" for a
    proof
      assume "a \<in> addrs S"
      then consider "objs w i \<noteq> None" "a \<in> addrs (sh i)" | "fresh w \<le> a"
        using S_cases by blast
      then show False
      proof cases
        case 1
        have "addrs (sh j) \<inter> addrs (sh i) = {}"
          using h ji _ 1(1) by (rule holds_disj) (simp add: oj)
        then show False using a 1(2) by blast
      next
        case 2
        have "a < fresh w" using h oj a by (rule holds_below)
        then show False using 2 by simp
      qed
    qed
    then show ?thesis by blast
  qed
  have below: "a < f'" if "a \<in> addrs S" for a
  proof -
    from S_cases [OF that]
    consider "objs w i \<noteq> None" "a \<in> addrs (sh i)" | "a < f'"
      by blast
    then show ?thesis
    proof cases
      case 1
      then obtain t where "objs w i = Some t" by blast
      then have "a < fresh w" using h 1(2) holds_below by blast
      then show ?thesis using ff by simp
    qed
  qed
  let ?w = "w\<lparr>cells := cells w ++ heap_of S, fresh := f', avail := k', objs := (objs w)(i \<mapsto> t')\<rparr>"
  show ?thesis
  proof (rule holdsI)
    fix a assume "fresh ?w \<le> a"
    then have fa: "f' \<le> a" by simp
    then have "a \<notin> addrs S" using below [of a] by auto
    moreover have "cells w a = None" using h fa ff by (simp add: holds_free)
    ultimately show "cells ?w a = None" by simp
  next
    fix j tj assume o: "objs ?w j = Some tj"
    show "obj_ok cmp eq (cells ?w) tj ((sh(i := S)) j)"
    proof (cases "j = i")
      case True
      then have "tj = t'" using o by simp
      then show ?thesis using True S t' by (simp add: obj_ok_def laid_overlay)
    next
      case False
      then have oj: "objs w j = Some tj" using o by simp
      have "obj_ok cmp eq (cells w ++ heap_of S) tj (sh j)"
      proof (rule obj_ok_frame)
        show "obj_ok cmp eq (cells w) tj (sh j)" using h oj by (rule holds_obj)
        fix a assume "a \<in> addrs (sh j)"
        then have "a \<notin> addrs S" using other [OF False oj] by blast
        then show "(cells w ++ heap_of S) a = cells w a" by simp
      qed
      then show ?thesis using False by simp
    qed
  next
    fix j j'
    assume jj: "j \<noteq> j'" and oj: "objs ?w j \<noteq> None" and oj': "objs ?w j' \<noteq> None"
    show "addrs ((sh(i := S)) j) \<inter> addrs ((sh(i := S)) j') = {}"
    proof (cases "j = i")
      case True
      then have "j' \<noteq> i" "objs w j' \<noteq> None" using jj oj' by auto
      then show ?thesis using True other [of j'] by auto
    next
      case ji: False
      then have o1: "objs w j \<noteq> None" using oj by simp
      show ?thesis
      proof (cases "j' = i")
        case True
        then show ?thesis using ji o1 other [of j] by auto
      next
        case False
        then have "objs w j' \<noteq> None" using oj' by simp
        then have "addrs (sh j) \<inter> addrs (sh j') = {}"
          using h jj o1 by (intro holds_disj)
        then show ?thesis using ji False by simp
      qed
    qed
  qed
qed

lemma holds_shrink:
  assumes h: "holds cmp eq w sh" and o: "objs w i = Some t"
  shows "holds cmp eq (w\<lparr>cells := release (addrs (sh i)) (cells w), objs := (objs w)(i := None)\<rparr>) sh"
proof (rule holdsI)
  let ?w = "w\<lparr>cells := release (addrs (sh i)) (cells w), objs := (objs w)(i := None)\<rparr>"
  fix a assume "fresh ?w \<le> a"
  then have "cells w a = None" using h by (simp add: holds_free)
  then show "cells ?w a = None" by (simp add: release_def)
next
  let ?w = "w\<lparr>cells := release (addrs (sh i)) (cells w), objs := (objs w)(i := None)\<rparr>"
  fix j tj assume "objs ?w j = Some tj"
  then have ji: "j \<noteq> i" and oj: "objs w j = Some tj" by (auto split: if_splits)
  have d: "addrs (sh j) \<inter> addrs (sh i) = {}"
    using h ji by (rule holds_disj) (simp_all add: o oj)
  have "obj_ok cmp eq (release (addrs (sh i)) (cells w)) tj (sh j)"
  proof (rule obj_ok_frame)
    show "obj_ok cmp eq (cells w) tj (sh j)" using h oj by (rule holds_obj)
    fix a assume "a \<in> addrs (sh j)"
    then have "a \<notin> addrs (sh i)" using d by blast
    then show "release (addrs (sh i)) (cells w) a = cells w a" by (simp add: release_def)
  qed
  then show "obj_ok cmp eq (cells ?w) tj (sh j)" by simp
next
  let ?w = "w\<lparr>cells := release (addrs (sh i)) (cells w), objs := (objs w)(i := None)\<rparr>"
  fix j j'
  assume "j \<noteq> j'" "objs ?w j \<noteq> None" "objs ?w j' \<noteq> None"
  then have "j \<noteq> j'" "objs w j \<noteq> None" "objs w j' \<noteq> None" by (auto split: if_splits)
  with h show "addrs (sh j) \<inter> addrs (sh j') = {}" by (rule holds_disj)
qed
section \<open>The public operations under the invariant\<close>

subsection \<open>Insertion, default construction and destruction\<close>

lemma holds_fresh_out:
  assumes "holds cmp eq w sh" "objs w i = Some t"
  shows "fresh w \<notin> addrs (sh i)"
  using holds_below [OF assms, of "fresh w"] by auto

lemma insert_tree_holds:
  assumes h: "holds cmp eq w sh" and o: "objs w i = Some t"
  shows "insert_tree i v w =
     Some (if dup cmp eq v (sh i) then Throw runtime_error w
           else if avail w = 0
             then Throw bad_alloc (w\<lparr>objs := (objs w)(i \<mapsto> t\<lparr>node_count := Suc (node_count t)\<rparr>)\<rparr>)
           else Return () (inserted cmp i v t (sh i) w))"
proof -
  have ok: "obj_ok cmp eq (cells w) t (sh i)" using h o by (rule holds_obj)
  then have r: "root t = ptr (sh i)" and l: "laid (cells w) (sh i)" and s: "sep (sh i)"
    and c: "compare t = cmp" and e: "equal t = eq"
    by (simp_all add: obj_ok_def)
  have f: "fresh w \<notin> addrs (sh i)" using h o by (rule holds_fresh_out)
  show ?thesis
  proof (cases "dup cmp eq v (sh i)")
    case True
    then have "insert_node i (ptr (sh i)) v w = Some (Throw runtime_error w)"
      using insert_node_dup [OF l o] c e by simp
    then show ?thesis using True o r by (simp add: insert_tree_def)
  next
    case nd: False
    show ?thesis
    proof (cases "avail w = 0")
      case True
      have "insert_node i (ptr (sh i)) v w =
        Some (Throw bad_alloc (w\<lparr>objs := (objs w)(i \<mapsto> t\<lparr>node_count := Suc (node_count t)\<rparr>)\<rparr>))"
        using insert_node_full [OF o True l] nd c e by simp
      then show ?thesis using True nd o r by (simp add: insert_tree_def)
    next
      case False
      have "insert_node i (ptr (sh i)) v w =
        Some (Return (ptr (ins cmp v (fresh w) (sh i)))
         (w\<lparr>cells := cells w ++ heap_of (ins cmp v (fresh w) (sh i)),
            fresh := Suc (fresh w), avail := avail w - 1,
            objs := (objs w)(i \<mapsto> t\<lparr>node_count := Suc (node_count t)\<rparr>)\<rparr>))"
        using insert_node_ok [OF o False l s f] nd c e by simp
      then show ?thesis using False nd o r
        by (simp add: insert_tree_def set_root_def inserted_def)
    qed
  qed
qed

lemma holds_inserted:
  assumes h: "holds cmp eq w sh" and o: "objs w i = Some t"
    and nd: "\<not> dup cmp eq v (sh i)"
  shows "holds cmp eq (inserted cmp i v t (sh i) w) (sh(i := ins cmp v (fresh w) (sh i)))"
proof -
  have ok: "obj_ok cmp eq (cells w) t (sh i)" using h o by (rule holds_obj)
  have f: "fresh w \<notin> addrs (sh i)" using h o by (rule holds_fresh_out)
  show ?thesis
    unfolding inserted_def
  proof (rule holds_grow [OF h])
    show "sep (ins cmp v (fresh w) (sh i))" using ok f by (simp add: obj_ok_def sep_ins)
    show "bst cmp eq (ins cmp v (fresh w) (sh i))" using ok nd by (simp add: obj_ok_def bst_ins)
    show "addrs (ins cmp v (fresh w) (sh i))
          \<subseteq> (if objs w i = None then {} else addrs (sh i)) \<union> {fresh w..<Suc (fresh w)}"
      using o by auto
    show "fresh w \<le> Suc (fresh w)" by simp
  qed (use ok in \<open>simp_all add: obj_ok_def\<close>)
qed

lemma BinaryTree_default_holds:
  assumes h: "holds cmp eq w sh" and o: "objs w i = None"
  shows "holds cmp eq
     (w\<lparr>objs := (objs w)(i \<mapsto> \<lparr>root = None, compare = cmp, equal = eq, node_count = 0\<rparr>)\<rparr>)
     (sh(i := Leaf))"
proof -
  have "holds cmp eq
     (w\<lparr>cells := cells w ++ heap_of Leaf, fresh := fresh w, avail := avail w,
        objs := (objs w)(i \<mapsto> \<lparr>root = None, compare = cmp, equal = eq, node_count = 0\<rparr>)\<rparr>)
     (sh(i := Leaf))"
    by (rule holds_grow [OF h]) simp_all
  then show ?thesis by simp
qed

lemma BinaryTree_destroy_holds:
  assumes h: "holds cmp eq w sh" and o: "objs w i = Some t"
  shows "BinaryTree_destroy i w =
         Some (Return () (w\<lparr>cells := release (addrs (sh i)) (cells w), objs := (objs w)(i := None)\<rparr>))"
proof -
  have ok: "obj_ok cmp eq (cells w) t (sh i)" using h o by (rule holds_obj)
  then have "destroy_tree (root t) w = Some (Return () (w\<lparr>cells := release (addrs (sh i)) (cells w)\<rparr>))"
    using destroy_tree_laid [of w "sh i"] by (simp add: obj_ok_def)
  then show ?thesis using o by (simp add: BinaryTree_destroy_def)
qed
subsection \<open>The range constructor\<close>

lemma insert_all_holds:
  "holds cmp eq w sh \<Longrightarrow> objs w i = Some t \<Longrightarrow>
   insert_all i xs w = Some (Return () w') \<or> insert_all i xs w = Some (Throw runtime_error w') \<Longrightarrow>
   \<exists>S t'. holds cmp eq w' (sh(i := S)) \<and> objs w' = (objs w)(i \<mapsto> t') \<and> fresh w \<le> fresh w' \<and>
          addrs (sh i) \<subseteq> addrs S \<and> addrs S \<subseteq> addrs (sh i) \<union> {fresh w..<fresh w'} \<and>
          (\<forall>a. a \<notin> addrs S \<longrightarrow> cells w' a = cells w a)"
proof (induction xs arbitrary: w sh t)
  case Nil
  then have "w' = w" by simp
  moreover have "sh(i := sh i) = sh" by simp
  moreover have "(objs w)(i \<mapsto> t) = objs w" using Nil.prems(2) by (rule map_upd_triv)
  ultimately show ?case using Nil.prems(1) by (intro exI [of _ "sh i"] exI [of _ t]) simp
next
  case (Cons x xs)
  note h = Cons.prems(1) and o = Cons.prems(2)
  note it = insert_tree_holds [OF h o, of x]
  show ?case
  proof (cases "dup cmp eq x (sh i)")
    case True
    then have "insert_all i (x # xs) w = Some (Throw runtime_error w)"
      using it by simp
    then have "w' = w" using Cons.prems(3) by simp
    moreover have "sh(i := sh i) = sh" by simp
    moreover have "(objs w)(i \<mapsto> t) = objs w" using o by (rule map_upd_triv)
    ultimately show ?thesis using h by (intro exI [of _ "sh i"] exI [of _ t]) simp
  next
    case nd: False
    show ?thesis
    proof (cases "avail w = 0")
      case True
      then have "insert_all i (x # xs) w =
          Some (Throw bad_alloc (w\<lparr>objs := (objs w)(i \<mapsto> t\<lparr>node_count := Suc (node_count t)\<rparr>)\<rparr>))"
        using it nd by simp
      then show ?thesis using Cons.prems(3) by simp
    next
      case False
      let ?w1 = "inserted cmp i x t (sh i) w"
      let ?s1 = "ins cmp x (fresh w) (sh i)"
      let ?t1 = "t\<lparr>node_count := Suc (node_count t), root := ptr ?s1\<rparr>"
      have "insert_tree i x w = Some (Return () ?w1)" using it nd False by simp
      then have all: "insert_all i (x # xs) w = insert_all i xs ?w1" by simp
      have h1: "holds cmp eq ?w1 (sh(i := ?s1))" using h o nd by (rule holds_inserted)
      have o1: "objs ?w1 i = Some ?t1" by (simp add: inserted_def)
      have "insert_all i xs ?w1 = Some (Return () w') \<or> insert_all i xs ?w1 = Some (Throw runtime_error w')"
        using Cons.prems(3) unfolding all .
      from Cons.IH [OF h1 o1 this]
      obtain S t' where S: "holds cmp eq w' ((sh(i := ?s1))(i := S))"
        "objs w' = (objs ?w1)(i \<mapsto> t')" "fresh ?w1 \<le> fresh w'"
        "addrs ((sh(i := ?s1)) i) \<subseteq> addrs S"
        "addrs S \<subseteq> addrs ((sh(i := ?s1)) i) \<union> {fresh ?w1..<fresh w'}"
        "\<forall>a. a \<notin> addrs S \<longrightarrow> cells w' a = cells ?w1 a"
        by blast
      have f1: "fresh ?w1 = Suc (fresh w)" and c1: "cells ?w1 = cells w ++ heap_of ?s1"
        and ob1: "objs ?w1 = (objs w)(i \<mapsto> ?t1)"
        by (simp_all add: inserted_def)
      have a1: "addrs S \<subseteq> addrs (sh i) \<union> {fresh w..<fresh w'}"
      proof
        fix a assume "a \<in> addrs S"
        then have "a \<in> insert (fresh w) (addrs (sh i)) \<or> (Suc (fresh w) \<le> a \<and> a < fresh w')"
          using S(5) f1 by auto
        then show "a \<in> addrs (sh i) \<union> {fresh w..<fresh w'}"
          using S(3) f1 by auto
      qed
      have a2: "\<forall>a. a \<notin> addrs S \<longrightarrow> cells w' a = cells w a"
      proof (intro allI impI)
        fix a assume n: "a \<notin> addrs S"
        then have "a \<notin> addrs ?s1" using S(4) by auto
        then have "cells ?w1 a = cells w a" unfolding c1 by simp
        then show "cells w' a = cells w a" using S(6) n by simp
      qed
      show ?thesis
      proof (intro exI [of _ S] exI [of _ t'] conjI)
        show "holds cmp eq w' (sh(i := S))" using S(1) by simp
        show "objs w' = (objs w)(i \<mapsto> t')" using S(2) ob1 by simp
        show "fresh w \<le> fresh w'" using S(3) f1 by simp
        show "addrs (sh i) \<subseteq> addrs S" using S(4) by auto
      qed (rule a1 a2)+
    qed
  qed
qed

lemma BinaryTree_range_returns:
  "insert_all i xs (w\<lparr>objs := (objs w)(i \<mapsto> \<lparr>root = None, compare = cmp, equal = eq, node_count = 0\<rparr>)\<rparr>)
     = Some (Return () w1) \<Longrightarrow>
   BinaryTree_range i xs cmp eq w = Some (Return () w1)"
  by (simp add: BinaryTree_range_def)

lemma BinaryTree_range_throws:
  assumes h: "holds cmp eq w sh" and o: "objs w i = None"
    and t: "insert_all i xs (w\<lparr>objs := (objs w)(i \<mapsto> \<lparr>root = None, compare = cmp, equal = eq, node_count = 0\<rparr>)\<rparr>)
             = Some (Throw runtime_error w1)"
  shows "BinaryTree_range i xs cmp eq w = Some (Throw runtime_error (w\<lparr>fresh := fresh w1, avail := avail w1\<rparr>))"
    and "\<exists>sh'. holds cmp eq (w\<lparr>fresh := fresh w1, avail := avail w1\<rparr>) sh'"
proof -
  let ?e = "\<lparr>root = None, compare = cmp, equal = eq, node_count = 0\<rparr>"
  let ?w0 = "w\<lparr>objs := (objs w)(i \<mapsto> ?e)\<rparr>"
  have h0: "holds cmp eq ?w0 (sh(i := Leaf))" using h o by (rule BinaryTree_default_holds)
  have o0: "objs ?w0 i = Some ?e" by simp
  from insert_all_holds [OF h0 o0, of xs w1] t
  obtain S t' where S: "holds cmp eq w1 ((sh(i := Leaf))(i := S))"
        "objs w1 = (objs ?w0)(i \<mapsto> t')" "fresh ?w0 \<le> fresh w1"
        "addrs S \<subseteq> addrs ((sh(i := Leaf)) i) \<union> {fresh ?w0..<fresh w1}"
        "\<forall>a. a \<notin> addrs S \<longrightarrow> cells w1 a = cells ?w0 a"
    by blast
  have o1: "objs w1 i = Some t'" using S(2) by simp
  have ok: "obj_ok cmp eq (cells w1) t' S" using holds_obj [OF S(1) o1] by simp
  then have d: "destroy_tree (root t') w1 = Some (Return () (w1\<lparr>cells := release (addrs S) (cells w1)\<rparr>))"
    using destroy_tree_laid [of w1 S] by (simp add: obj_ok_def)
  let ?wf = "w1\<lparr>cells := release (addrs S) (cells w1), objs := (objs w1)(i := None)\<rparr>"
  have r: "BinaryTree_range i xs cmp eq w = Some (Throw runtime_error ?wf)"
    using t o1 d by (simp add: BinaryTree_range_def)
  have c: "release (addrs S) (cells w1) = cells w"
  proof (rule ext)
    fix a
    show "release (addrs S) (cells w1) a = cells w a"
    proof (cases "a \<in> addrs S")
      case True
      then have "fresh w \<le> a" using S(4) by auto
      then have "cells w a = None" using h by (simp add: holds_free)
      then show ?thesis using True by (simp add: release_def)
    next
      case False
      then show ?thesis using S(5) by (simp add: release_def)
    qed
  qed
  have ob: "(objs w1)(i := None) = objs w"
    using S(2) o by (intro ext) simp
  have e: "?wf = w\<lparr>fresh := fresh w1, avail := avail w1\<rparr>"
    by (rule world.equality) (simp_all add: c ob)
  show "BinaryTree_range i xs cmp eq w = Some (Throw runtime_error (w\<lparr>fresh := fresh w1, avail := avail w1\<rparr>))"
    using r unfolding e .
  have "holds cmp eq ?wf ((sh(i := Leaf))(i := S))"
    using holds_shrink [OF S(1) o1] by simp
  then show "\<exists>sh'. holds cmp eq (w\<lparr>fresh := fresh w1, avail := avail w1\<rparr>) sh'"
    unfolding e by blast
qed

lemma insert_all_append_throws:
  "insert_all i pre w = Some (Return () w1) \<Longrightarrow> insert_tree i x w1 = Some (Throw e w2) \<Longrightarrow>
   insert_all i (pre @ x # rest) w = Some (Throw e w2)"
proof (induction pre arbitrary: w)
  case Nil
  then show ?case by simp
next
  case (Cons y ys)
  show ?case
  proof (cases "insert_tree i y w")
    case None
    then show ?thesis using Cons.prems(1) by (simp add: then_do_def)
  next
    case (Some r)
    then show ?thesis using Cons by (cases r) simp_all
  qed
qed
subsection \<open>Copy construction and assignment\<close>

lemma copy_world_root:
  assumes o: "objs w i = Some t" and r: "root t = None"
  shows "copy_world (RootRef i) s w = planted i t (pcopy (avail w) (fresh w) s) w"
proof (cases "pcopy (avail w) (fresh w) s = Leaf")
  case True
  have "t\<lparr>root := None\<rparr> = t" using r by simp
  then have "(objs w)(i \<mapsto> t\<lparr>root := None\<rparr>) = objs w" using o by (simp add: map_upd_triv)
  then show ?thesis using True by (simp add: copy_world_def planted_def)
next
  case False
  let ?S = "pcopy (avail w) (fresh w) s"
  have 1: "wcells (RootRef i) (ptr ?S) (cells w ++ heap_of ?S) = cells w ++ heap_of ?S"
    by (rule ext) simp
  have 2: "wobjs (RootRef i) (ptr ?S) (objs w) = (objs w)(i \<mapsto> t\<lparr>root := ptr ?S\<rparr>)"
    by (rule ext) (simp add: o)
  have "write_ref (RootRef i) (ptr ?S) (grown ?S w) = planted i t ?S w"
    unfolding planted_def by (rule world.equality) (simp_all add: 1 2)
  then show ?thesis using False by (simp add: copy_world_def)
qed

lemma copy_into:
  assumes o: "objs w i = Some t" and r: "root t = None"
    and l: "laid (cells w) s" and b: "\<forall>a \<in> addrs s. a < fresh w"
  shows "copy_subtree (RootRef i) (ptr s) w =
         Some (if nodes s \<le> avail w then Return () (planted i t (pcopy (avail w) (fresh w) s) w)
               else Throw bad_alloc (planted i t (pcopy (avail w) (fresh w) s) w))"
proof -
  have "copy_subtree (RootRef i) (ptr s) w = Some (copy_result (RootRef i) s w)"
    using l b by (rule copy_subtree_laid) (simp_all add: o)
  then show ?thesis
    unfolding copy_result_def copy_world_root [OF o r] by simp
qed

lemma bst_pcopy: "nodes s \<le> k \<Longrightarrow> bst cmp eq (pcopy k f s) = bst cmp eq s"
  by (induction s arbitrary: k f) (auto simp: elems_pcopy)

lemma ptr_pcopy: "nodes s \<le> k \<Longrightarrow> (ptr (pcopy k f s) = None) = (ptr s = None)"
  by (cases s) auto

text \<open>The invariant after a full copy has been hung under a fresh, empty object.\<close>

lemma holds_planted:
  assumes h: "holds cmp eq w sh" and o: "objs w i = Some t" and e: "sh i = Leaf"
    and bs: "bst cmp eq s" and full: "nodes s \<le> avail w" and n: "n = nodes s"
  shows "holds cmp eq
           ((planted i t (pcopy (avail w) (fresh w) s) w)
              \<lparr>objs := (objs w)(i \<mapsto> t\<lparr>root := ptr (pcopy (avail w) (fresh w) s), node_count := n\<rparr>)\<rparr>)
           (sh(i := pcopy (avail w) (fresh w) s))"
proof -
  let ?S = "pcopy (avail w) (fresh w) s"
  let ?t = "t\<lparr>root := ptr ?S, node_count := n\<rparr>"
  have ok: "obj_ok cmp eq (cells w) t (sh i)" using h o by (rule holds_obj)
  have "holds cmp eq
          (w\<lparr>cells := cells w ++ heap_of ?S, fresh := fresh w + nodes ?S, avail := avail w - nodes ?S,
             objs := (objs w)(i \<mapsto> ?t)\<rparr>)
          (sh(i := ?S))"
  proof (rule holds_grow [OF h])
    show "sep ?S" by simp
    show "bst cmp eq ?S" using bs full by (simp add: bst_pcopy)
    show "addrs ?S \<subseteq> (if objs w i = None then {} else addrs (sh i)) \<union> {fresh w..<fresh w + nodes ?S}"
      by simp
    show "node_count ?t = nodes ?S" using full n by simp
  qed (use ok in \<open>simp_all add: obj_ok_def\<close>)
  then show ?thesis by (simp add: planted_def)
qed
lemma ptr_None_iff [simp]: "(ptr s = None) = (s = Leaf)"
  by (cases s) simp_all

lemma blank_sel [simp]:
  "root (blank cmp eq) = None" "compare (blank cmp eq) = cmp" "equal (blank cmp eq) = eq"
  "node_count (blank cmp eq) = 0"
  by (simp_all add: blank_def)

text \<open>
  The common part of the copy constructor and of the assignment: the object \<open>i\<close> is
  blank, and the tree laid out as \<open>s\<close> is copied under it and counted as \<open>n\<close>.
\<close>

lemma copy_and_count:
  assumes h: "holds cmp eq w sh" and o: "objs w i = Some (blank cmp eq)" and e: "sh i = Leaf"
    and oj: "objs w j = Some ot" and ji: "j \<noteq> i"
    and full: "nodes (sh j) \<le> avail w"
  shows "copy_body i j ot w = Some (Return () (copied_to i cmp eq (sh j) w))"
    and "holds cmp eq (copied_to i cmp eq (sh j) w) (sh(i := pcopy (avail w) (fresh w) (sh j)))"
proof -
  let ?S = "pcopy (avail w) (fresh w) (sh j)"
  have okj: "obj_ok cmp eq (cells w) ot (sh j)" using h oj by (rule holds_obj)
  then have rj: "root ot = ptr (sh j)" and lj: "laid (cells w) (sh j)" and nj: "node_count ot = nodes (sh j)"
    and bj: "bst cmp eq (sh j)"
    by (simp_all add: obj_ok_def)
  have below: "\<forall>a \<in> addrs (sh j). a < fresh w"
    using holds_below [OF h oj] by blast
  have nS: "nodes ?S = nodes (sh j)" using full by simp
  have hp: "holds cmp eq
           ((planted i (blank cmp eq) ?S w)
              \<lparr>objs := (objs w)(i \<mapsto> (blank cmp eq)\<lparr>root := ptr ?S, node_count := nodes (sh j)\<rparr>)\<rparr>)
           (sh(i := ?S))"
    using h o e bj full by (rule holds_planted) simp
  have eqw: "(planted i (blank cmp eq) ?S w)
              \<lparr>objs := (objs w)(i \<mapsto> (blank cmp eq)\<lparr>root := ptr ?S, node_count := nodes (sh j)\<rparr>)\<rparr>
             = copied_to i cmp eq (sh j) w"
    using nS by (simp add: planted_def copied_to_def blank_def)
  show "holds cmp eq (copied_to i cmp eq (sh j) w) (sh(i := ?S))"
    using hp unfolding eqw .
  show "copy_body i j ot w = Some (Return () (copied_to i cmp eq (sh j) w))"
  proof (cases "sh j = Leaf")
    case True
    have "(objs w)(i \<mapsto> blank cmp eq) = objs w" using o by (rule map_upd_triv)
    then have "copied_to i cmp eq Leaf w = w"
      by (simp add: copied_to_def blank_def [symmetric])
    then show ?thesis using True rj by (simp add: copy_body_def)
  next
    case False
    have c: "copy_subtree (RootRef i) (ptr (sh j)) w = Some (Return () (planted i (blank cmp eq) ?S w))"
      using copy_into [OF o _ lj below] full by simp
    have g: "objs (planted i (blank cmp eq) ?S w) j = Some ot"
      using oj ji by (simp add: planted_def)
    have s: "set_node_count i (nodes (sh j)) (planted i (blank cmp eq) ?S w)
             = Some (Return () (copied_to i cmp eq (sh j) w))"
      using nS by (simp add: set_node_count_def planted_def copied_to_def blank_def)
    show ?thesis using False rj c g s nj by (simp add: copy_body_def)
  qed
qed

lemma BinaryTree_default_blank:
  assumes h: "holds cmp eq w sh" and o: "objs w i = None"
  shows "holds cmp eq (w\<lparr>objs := (objs w)(i \<mapsto> blank cmp eq)\<rparr>) (sh(i := Leaf))"
  using BinaryTree_default_holds [OF h o] by (simp add: blank_def)

lemma BinaryTree_copy_ok:
  assumes h: "holds cmp eq w sh" and oi: "objs w i = None" and oj: "objs w j = Some ot"
    and full: "nodes (sh j) \<le> avail w"
  shows "BinaryTree_copy i j w = Some (Return () (copied_to i cmp eq (sh j) w))"
    and "holds cmp eq (copied_to i cmp eq (sh j) w) (sh(i := pcopy (avail w) (fresh w) (sh j)))"
proof -
  let ?w0 = "w\<lparr>objs := (objs w)(i \<mapsto> blank cmp eq)\<rparr>"
  have ji: "j \<noteq> i" using oi oj by auto
  have okj: "obj_ok cmp eq (cells w) ot (sh j)" using h oj by (rule holds_obj)
  then have fj: "compare ot = cmp" "equal ot = eq" by (simp_all add: obj_ok_def)
  have h0: "holds cmp eq ?w0 (sh(i := Leaf))" using h oi by (rule BinaryTree_default_blank)
  have o0: "objs ?w0 i = Some (blank cmp eq)" by simp
  have oj0: "objs ?w0 j = Some ot" using oj ji by simp
  have full0: "nodes ((sh(i := Leaf)) j) \<le> avail ?w0" using full ji by simp
  have e0: "(sh(i := Leaf)) i = Leaf" by simp
  note cc = copy_and_count [OF h0 o0 e0 oj0 ji full0]
  have e: "copied_to i cmp eq ((sh(i := Leaf)) j) ?w0 = copied_to i cmp eq (sh j) w"
    using ji by (simp add: copied_to_def)
  have body: "copy_body i j ot ?w0 = Some (Return () (copied_to i cmp eq (sh j) w))"
    using cc(1) unfolding e .
  have unf: "BinaryTree_copy i j w =
     then_do (get_obj j w) (\<lambda>ot _.
     try_catch
       (then_do (get_obj j (w\<lparr>objs := (objs w)(i \<mapsto> blank (compare ot) (equal ot))\<rparr>))
          (\<lambda>o1 w0. copy_body i j o1 w0))
       (\<lambda>e w1.
          then_do (get_obj i w1) (\<lambda>t _.
          then_do (destroy_tree (root t) w1) (\<lambda>_ w2.
          Some (Throw e (w2\<lparr>objs := (objs w2)(i := None)\<rparr>))))))"
    unfolding BinaryTree_copy_def copy_body_def blank_def ..
  have "BinaryTree_copy i j w = Some (Return () (copied_to i cmp eq (sh j) w))"
    unfolding unf using oj fj ji by (simp add: body)
  then show "BinaryTree_copy i j w = Some (Return () (copied_to i cmp eq (sh j) w))"
    by simp
  have e1: "pcopy (avail ?w0) (fresh ?w0) ((sh(i := Leaf)) j) = pcopy (avail w) (fresh w) (sh j)"
    using ji by simp
  have e2: "(sh(i := Leaf))(i := pcopy (avail w) (fresh w) (sh j)) = sh(i := pcopy (avail w) (fresh w) (sh j))"
    by simp
  show "holds cmp eq (copied_to i cmp eq (sh j) w) (sh(i := pcopy (avail w) (fresh w) (sh j)))"
    using cc(2) by (simp only: e e1 e2)
qed

lemma copy_body_fails:
  assumes o: "objs w i = Some (blank cmp eq)"
    and okj: "obj_ok cmp eq (cells w) ot (sh j)"
    and below: "\<forall>a \<in> addrs (sh j). a < fresh w"
    and short: "\<not> nodes (sh j) \<le> avail w"
  shows "copy_body i j ot w =
         Some (Throw bad_alloc (planted i (blank cmp eq) (pcopy (avail w) (fresh w) (sh j)) w))"
proof -
  have rj: "root ot = ptr (sh j)" and lj: "laid (cells w) (sh j)"
    using okj by (simp_all add: obj_ok_def)
  have "sh j \<noteq> Leaf" using short by auto
  moreover have "copy_subtree (RootRef i) (ptr (sh j)) w =
      Some (Throw bad_alloc (planted i (blank cmp eq) (pcopy (avail w) (fresh w) (sh j)) w))"
    using copy_into [OF o _ lj below] short by simp
  ultimately show ?thesis using rj by (simp add: copy_body_def)
qed

lemma holds_cleared:
  assumes h: "holds cmp eq w sh" and o: "objs w i = Some t"
  shows "holds cmp eq (cleared i cmp eq (addrs (sh i)) w) (sh(i := Leaf))"
proof -
  let ?w1 = "w\<lparr>cells := release (addrs (sh i)) (cells w), objs := (objs w)(i := None)\<rparr>"
  have "holds cmp eq ?w1 sh" using h o by (rule holds_shrink)
  then have "holds cmp eq (?w1\<lparr>objs := (objs ?w1)(i \<mapsto> blank cmp eq)\<rparr>) (sh(i := Leaf))"
    by (rule BinaryTree_default_blank) simp
  then show ?thesis by (simp add: cleared_def)
qed

lemma blank_reset:
  "compare t = cmp \<Longrightarrow> equal t = eq \<Longrightarrow>
   t\<lparr>root := None, node_count := 0, compare := cmp, equal := eq\<rparr> = blank cmp eq"
  by (cases t) (simp add: blank_def)

lemma operator_assign_unfold:
  "operator_assign i j w =
     (if i \<noteq> j then
        then_do (get_obj i w) (\<lambda>t _.
        then_do (destroy_tree (root t) w) (\<lambda>_ w1.
        then_do (set_root i None w1) (\<lambda>_ w2.
        then_do (set_node_count i 0 w2) (\<lambda>_ w3.
        then_do (get_obj j w3) (\<lambda>ot _.
        then_do (get_obj i w3) (\<lambda>t3 _.
        try_catch
          (then_do (get_obj j
                     (w3\<lparr>objs := (objs w3)(i \<mapsto> t3\<lparr>compare := compare ot, equal := equal ot\<rparr>)\<rparr>))
             (\<lambda>o1 w4. copy_body i j o1 w4))
          (\<lambda>e w5.
             then_do (get_obj i w5) (\<lambda>t5 _.
             then_do (destroy_tree (root t5) w5) (\<lambda>_ w6.
             Some (Throw e w6))))))))))
      else Some (Return () w))"
  unfolding operator_assign_def copy_body_def ..

text \<open>The assignment up to the \<^verbatim>\<open>try\<close> block: the target is emptied and takes the functors.\<close>

lemma operator_assign_prefix:
  assumes h: "holds cmp eq w sh" and oi: "objs w i = Some t" and oj: "objs w j = Some ot"
    and ij: "i \<noteq> j"
  shows "operator_assign i j w =
     try_catch (copy_body i j ot (cleared i cmp eq (addrs (sh i)) w))
       (\<lambda>e w5.
          then_do (get_obj i w5) (\<lambda>t5 _.
          then_do (destroy_tree (root t5) w5) (\<lambda>_ w6.
          Some (Throw e w6))))"
proof -
  have oki: "obj_ok cmp eq (cells w) t (sh i)" using h oi by (rule holds_obj)
  have okj: "obj_ok cmp eq (cells w) ot (sh j)" using h oj by (rule holds_obj)
  have fi: "compare t = cmp" "equal t = eq" using oki by (simp_all add: obj_ok_def)
  have fj: "compare ot = cmp" "equal ot = eq" using okj by (simp_all add: obj_ok_def)
  have d: "destroy_tree (root t) w = Some (Return () (w\<lparr>cells := release (addrs (sh i)) (cells w)\<rparr>))"
    using oki destroy_tree_laid [of w "sh i"] by (simp add: obj_ok_def)
  have b: "t\<lparr>root := None, node_count := 0, compare := cmp, equal := eq\<rparr> = blank cmp eq"
    using fi by (rule blank_reset)
  show ?thesis
    unfolding operator_assign_unfold
    using ij oi oj d fj
    by (simp add: set_root_def set_node_count_def cleared_def b)
qed

lemma operator_assign_ok:
  assumes h: "holds cmp eq w sh" and oi: "objs w i = Some t" and oj: "objs w j = Some ot"
    and ij: "i \<noteq> j" and full: "nodes (sh j) \<le> avail w"
  shows "operator_assign i j w =
           Some (Return () (copied_to i cmp eq (sh j) (cleared i cmp eq (addrs (sh i)) w)))"
    and "holds cmp eq (copied_to i cmp eq (sh j) (cleared i cmp eq (addrs (sh i)) w))
           (sh(i := pcopy (avail w) (fresh w) (sh j)))"
proof -
  let ?wE = "cleared i cmp eq (addrs (sh i)) w"
  have hE: "holds cmp eq ?wE (sh(i := Leaf))" using h oi by (rule holds_cleared)
  have oE: "objs ?wE i = Some (blank cmp eq)" by (simp add: cleared_def)
  have ojE: "objs ?wE j = Some ot" using oj ij by (simp add: cleared_def)
  have e0: "(sh(i := Leaf)) i = Leaf" by simp
  have ji: "j \<noteq> i" using ij by simp
  have fullE: "nodes ((sh(i := Leaf)) j) \<le> avail ?wE" using full ij by (simp add: cleared_def)
  note cc = copy_and_count [OF hE oE e0 ojE ji fullE]
  have e: "(sh(i := Leaf)) j = sh j" using ij by simp
  have e1: "avail ?wE = avail w" "fresh ?wE = fresh w" by (simp_all add: cleared_def)
  have e2: "(sh(i := Leaf))(i := pcopy (avail w) (fresh w) (sh j)) = sh(i := pcopy (avail w) (fresh w) (sh j))"
    by simp
  have body: "copy_body i j ot ?wE = Some (Return () (copied_to i cmp eq (sh j) ?wE))"
    using cc(1) by (simp only: e)
  show "operator_assign i j w = Some (Return () (copied_to i cmp eq (sh j) ?wE))"
    unfolding operator_assign_prefix [OF h oi oj ij] body by simp
  show "holds cmp eq (copied_to i cmp eq (sh j) ?wE) (sh(i := pcopy (avail w) (fresh w) (sh j)))"
    using cc(2) by (simp only: e e1 e2)
qed

lemma operator_assign_fails:
  assumes h: "holds cmp eq w sh" and oi: "objs w i = Some t" and oj: "objs w j = Some ot"
    and ij: "i \<noteq> j" and short: "\<not> nodes (sh j) \<le> avail w"
  shows "operator_assign i j w =
           Some (Throw bad_alloc
             (w\<lparr>cells := release (addrs (sh i)) (cells w),
                fresh := fresh w + avail w, avail := 0,
                objs := (objs w)(i \<mapsto> \<lparr>root = ptr (pcopy (avail w) (fresh w) (sh j)),
                                          compare = cmp, equal = eq, node_count = 0\<rparr>)\<rparr>))"
proof -
  let ?wE = "cleared i cmp eq (addrs (sh i)) w"
  let ?S = "pcopy (avail w) (fresh w) (sh j)"
  let ?P = "planted i (blank cmp eq) ?S ?wE"
  have hE: "holds cmp eq ?wE (sh(i := Leaf))" using h oi by (rule holds_cleared)
  have oE: "objs ?wE i = Some (blank cmp eq)" by (simp add: cleared_def)
  have ojE: "objs ?wE j = Some ot" using oj ij by (simp add: cleared_def)
  have e1: "avail ?wE = avail w" "fresh ?wE = fresh w" by (simp_all add: cleared_def)
  have okj: "obj_ok cmp eq (cells ?wE) ot (sh j)"
    using holds_obj [OF hE ojE] ij by simp
  have below: "\<forall>a \<in> addrs (sh j). a < fresh ?wE"
    using holds_below [OF hE ojE] ij by simp
  have "copy_body i j ot ?wE =
         Some (Throw bad_alloc (planted i (blank cmp eq) (pcopy (avail ?wE) (fresh ?wE) (sh j)) ?wE))"
    using oE okj below by (rule copy_body_fails) (simp add: e1 short)
  then have body: "copy_body i j ot ?wE = Some (Throw bad_alloc ?P)"
    unfolding e1 .
  have oP: "objs ?P i = Some ((blank cmp eq)\<lparr>root := ptr ?S\<rparr>)"
    by (simp add: planted_def)
  have "laid (cells ?wE ++ heap_of ?S) ?S" by (rule laid_overlay) simp
  then have lP: "laid (cells ?P) ?S" by (simp add: planted_def)
  have dP: "destroy_tree (ptr ?S) ?P = Some (Return () (?P\<lparr>cells := release (addrs ?S) (cells ?P)\<rparr>))"
    using lP by (rule destroy_tree_laid) simp
  have c: "release (addrs ?S) (cells ?P) = cells ?wE"
  proof (rule ext)
    fix a
    show "release (addrs ?S) (cells ?P) a = cells ?wE a"
    proof (cases "a \<in> addrs ?S")
      case True
      then have "fresh ?wE \<le> a" by (simp add: e1)
      with hE have n: "cells ?wE a = None" by (rule holds_free)
      have r: "release (addrs ?S) (cells ?P) a = None"
        unfolding release_def using True by (rule if_P)
      show ?thesis unfolding r n ..
    next
      case False
      have "release (addrs ?S) (cells ?P) a = cells ?P a"
        unfolding release_def using False by (rule if_not_P)
      also have "cells ?P a = (cells ?wE ++ heap_of ?S) a"
        by (simp add: planted_def)
      also have "\<dots> = cells ?wE a"
        using False by (rule overlay_outside)
      finally show ?thesis .
    qed
  qed
  have nS: "nodes ?S = avail w" using short by simp
  have fin: "?P\<lparr>cells := release (addrs ?S) (cells ?P)\<rparr> =
        w\<lparr>cells := release (addrs (sh i)) (cells w),
                fresh := fresh w + avail w, avail := 0,
                objs := (objs w)(i \<mapsto> \<lparr>root = ptr ?S, compare = cmp, equal = eq, node_count = 0\<rparr>)\<rparr>"
    unfolding c using short
    by (intro world.equality) (simp_all add: planted_def cleared_def blank_def min_def)
  have "operator_assign i j w = Some (Throw bad_alloc (?P\<lparr>cells := release (addrs ?S) (cells ?P)\<rparr>))"
    unfolding operator_assign_prefix [OF h oi oj ij] body
    using oP dP by simp
  then show ?thesis unfolding fin .
qed

lemma operator_assign_self: "operator_assign i i w = Some (Return () w)"
  by (simp add: operator_assign_def)
subsection \<open>Subtree extraction\<close>

lemma bst_found: "bst cmp eq s \<Longrightarrow> bst cmp eq (found cmp eq v s)"
  by (induction s) auto

lemma subtree_ok:
  assumes h: "holds cmp eq w sh" and oi: "objs w i = Some t" and ores: "objs w res = None"
    and full: "nodes (found cmp eq v (sh i)) \<le> avail w"
  shows "subtree cmp eq i v res w = Some (Return () (copied_to res cmp eq (found cmp eq v (sh i)) w))"
    and "holds cmp eq (copied_to res cmp eq (found cmp eq v (sh i)) w)
           (sh(res := pcopy (avail w) (fresh w) (found cmp eq v (sh i))))"
proof -
  let ?F = "found cmp eq v (sh i)"
  let ?S = "pcopy (avail w) (fresh w) ?F"
  let ?w0 = "w\<lparr>objs := (objs w)(res \<mapsto> blank cmp eq)\<rparr>"
  let ?P = "planted res (blank cmp eq) ?S ?w0"
  have ir: "i \<noteq> res" using oi ores by auto
  have oki: "obj_ok cmp eq (cells w) t (sh i)" using h oi by (rule holds_obj)
  then have ri: "root t = ptr (sh i)" and li: "laid (cells w) (sh i)" and bi: "bst cmp eq (sh i)"
    and fi: "compare t = cmp" "equal t = eq"
    by (simp_all add: obj_ok_def)
  have lF: "laid (cells w) ?F" using li by (rule found_laid)
  have belowF: "\<forall>a \<in> addrs ?F. a < fresh w"
    using holds_below [OF h oi] found_addrs [of cmp eq v "sh i"] by blast
  have nS: "nodes ?S = nodes ?F" using full by simp
  have o0: "objs ?w0 i = Some t" using oi ir by simp
  have f: "find_subtree i (root t) v ?w0 = Some (Return (ptr ?F) ?w0)"
    using find_subtree_laid [of ?w0 "sh i" i t v] li o0 ri fi by simp
  have fin: "(if ptr ?F \<noteq> None then
               then_do (copy_subtree (RootRef res) (ptr ?F) ?w0) (\<lambda>_ w2.
               then_do (get_obj res w2) (\<lambda>s _.
               then_do (count_nodes (root s) w2) (\<lambda>k w3.
               set_node_count res k w3)))
             else Some (Return () ?w0))
            = Some (Return () (copied_to res cmp eq ?F w))"
  proof (cases "?F = Leaf")
    case True
    then show ?thesis by (simp add: copied_to_def blank_def)
  next
    case False
    have c: "copy_subtree (RootRef res) (ptr ?F) ?w0 = Some (Return () ?P)"
      using copy_into [of ?w0 res "blank cmp eq" ?F] lF belowF full by simp
    have oP: "objs ?P res = Some ((blank cmp eq)\<lparr>root := ptr ?S\<rparr>)"
      by (simp add: planted_def)
    have "laid (cells ?w0 ++ heap_of ?S) ?S" by (rule laid_overlay) simp
    then have "laid (cells ?P) ?S" by (simp add: planted_def)
    then have k: "count_nodes (ptr ?S) ?P = Some (Return (nodes ?S) ?P)"
      by (rule count_nodes_laid)
    have s: "set_node_count res (nodes ?S) ?P = Some (Return () (copied_to res cmp eq ?F w))"
      using nS by (simp add: set_node_count_def planted_def copied_to_def blank_def)
    have "then_do (copy_subtree (RootRef res) (ptr ?F) ?w0) (\<lambda>_ w2.
               then_do (get_obj res w2) (\<lambda>s _.
               then_do (count_nodes (root s) w2) (\<lambda>k w3.
               set_node_count res k w3)))
          = Some (Return () (copied_to res cmp eq ?F w))"
      unfolding c then_do_simps using oP k s by simp
    then show ?thesis using False by simp
  qed
  have unf: "subtree cmp eq i v res w =
     try_catch
       (then_do (get_obj i ?w0) (\<lambda>t _.
        then_do (find_subtree i (root t) v ?w0) (\<lambda>subtree_root w1.
          if subtree_root \<noteq> None then
            then_do (copy_subtree (RootRef res) subtree_root w1) (\<lambda>_ w2.
            then_do (get_obj res w2) (\<lambda>s _.
            then_do (count_nodes (root s) w2) (\<lambda>k w3.
            set_node_count res k w3)))
          else Some (Return () w1))))
       (\<lambda>e w1. then_do (BinaryTree_destroy res w1) (\<lambda>_ w2. Some (Throw e w2)))"
    unfolding subtree_def BinaryTree_default_def blank_def then_do_simps ..
  have g: "get_obj i ?w0 = Some (Return t ?w0)" using o0 by simp
  show "subtree cmp eq i v res w = Some (Return () (copied_to res cmp eq ?F w))"
    unfolding unf g then_do_simps f fin try_catch_simps ..
  have "holds cmp eq
          (w\<lparr>cells := cells w ++ heap_of ?S, fresh := fresh w + nodes ?F, avail := avail w - nodes ?F,
             objs := (objs w)(res \<mapsto> \<lparr>root = ptr ?S, compare = cmp, equal = eq, node_count = nodes ?F\<rparr>)\<rparr>)
          (sh(res := ?S))"
  proof (rule holds_grow [OF h])
    show "sep ?S" by simp
    show "bst cmp eq ?S" using bi full by (simp add: bst_pcopy bst_found)
    show "addrs ?S \<subseteq> (if objs w res = None then {} else addrs (sh res)) \<union> {fresh w..<fresh w + nodes ?F}"
      using full by simp
    show "node_count \<lparr>root = ptr ?S, compare = cmp, equal = eq, node_count = nodes ?F\<rparr> = nodes ?S"
      using full by simp
  qed simp_all
  then show "holds cmp eq (copied_to res cmp eq ?F w) (sh(res := ?S))"
    by (simp add: copied_to_def)
qed
section \<open>Every reachable store satisfies the invariant\<close>

text \<open>
  Each operation of a client, when the client goes on after it, leads from a
  store that satisfies the invariant to a store that satisfies it.
\<close>

lemma then_do_Throw:
  "then_do m f = Some (Throw e s) \<Longrightarrow>
   m = Some (Throw e s) \<or> (\<exists>x s1. m = Some (Return x s1) \<and> f x s1 = Some (Throw e s))"
  by (cases m) (auto simp: then_do_def split: outcome.splits)

lemma destroy_tree_no_throw:
  assumes "destroy_tree node w = Some y"
  shows "\<forall>e s. y \<noteq> Throw e s"
proof (rule destroy_tree.raw_induct [where P = "\<lambda>node w y. \<forall>e s. y \<noteq> Throw e s", OF _ assms])
  fix f :: "addr option \<Rightarrow> 'a world \<Rightarrow> (unit, 'a world) outcome option" and node w y
  assume ih: "\<And>node w y. f node w = Some y \<Longrightarrow> \<forall>e s. y \<noteq> Throw e s"
    and body: "(case node of
        None \<Rightarrow> Some (Return () w)
      | Some a \<Rightarrow>
          then_do (get_node node w) (\<lambda>n _.
          then_do (f (left n) w) (\<lambda>_ w1.
          then_do (get_node node w1) (\<lambda>n1 _.
          then_do (f (right n1) w1) (\<lambda>_ w2.
          delete_Node a w2))))) = Some y"
  show "\<forall>e s. y \<noteq> Throw e s"
  proof (intro allI notI)
    fix e s assume y: "y = Throw e s"
    show False
    proof (cases node)
      case None
      then show False using body y by simp
    next
      case (Some a)
      then obtain n where n: "cells w a = Some n"
        using body y by (cases "cells w a") auto
      have a: "then_do (f (left n) w) (\<lambda>_ w1.
                then_do (get_node (Some a) w1) (\<lambda>n1 _.
                then_do (f (right n1) w1) (\<lambda>_ w2. delete_Node a w2)))
               = Some (Throw e s)"
        using body y Some n by simp
      from then_do_Throw [OF a] ih [of "left n" w]
      obtain u w1 where w1: "f (left n) w = Some (Return u w1)"
        and b: "then_do (get_node (Some a) w1) (\<lambda>n1 _.
                then_do (f (right n1) w1) (\<lambda>_ w2. delete_Node a w2)) = Some (Throw e s)"
        by blast
      obtain n1 where n1: "cells w1 a = Some n1"
        using b by (cases "cells w1 a") auto
      have c: "then_do (f (right n1) w1) (\<lambda>_ w2. delete_Node a w2) = Some (Throw e s)"
        using b n1 by simp
      from then_do_Throw [OF c] ih [of "right n1" w1]
      obtain u2 w2 where "delete_Node a w2 = Some (Throw e s)"
        by blast
      then show False by (simp add: delete_Node_def split: option.splits)
    qed
  qed
qed

lemma goes_on_simps [simp]:
  "goes_on (Some (Return u w)) w' = (w = w')"
  "goes_on (Some (Throw e w)) w' = (e = runtime_error \<and> w = w')"
  "goes_on (Some Undefined) w' = False"
  "goes_on None w' = False"
  by (auto simp: goes_on_def)

lemma cleanup_stops:
  "\<not> goes_on (then_do (get_obj i P) (\<lambda>t _. then_do (destroy_tree (root t) P)
                   (\<lambda>_ w2. Some (Throw bad_alloc (g w2))))) w'"
proof (cases "objs P i")
  case None
  then show ?thesis by simp
next
  case (Some t)
  show ?thesis
  proof (cases "destroy_tree (root t) P")
    case None
    then show ?thesis using Some by simp
  next
    case y: (Some y)
    show ?thesis
    proof (cases y)
      case (Return u w2)
      then show ?thesis using Some y by simp
    next
      case (Throw e s)
      then show ?thesis using destroy_tree_no_throw [OF y] by simp
    next
      case Undefined
      then show ?thesis using Some y by simp
    qed
  qed
qed

lemma destroy_stops:
  "\<not> goes_on (then_do (BinaryTree_destroy i P) (\<lambda>_ w2. Some (Throw bad_alloc w2))) w'"
proof (cases "objs P i")
  case None
  then show ?thesis by (simp add: BinaryTree_destroy_def)
next
  case (Some t)
  show ?thesis
  proof (cases "destroy_tree (root t) P")
    case None
    then show ?thesis using Some by (simp add: BinaryTree_destroy_def)
  next
    case y: (Some y)
    show ?thesis
    proof (cases y)
      case (Return u w2)
      then show ?thesis using Some y by (simp add: BinaryTree_destroy_def)
    next
      case (Throw e s)
      then show ?thesis using destroy_tree_no_throw [OF y] by simp
    next
      case Undefined
      then show ?thesis using Some y by (simp add: BinaryTree_destroy_def)
    qed
  qed
qed

lemma Insert_holds:
  assumes h: "holds cmp eq w sh" and l: "objs w i \<noteq> None" and g: "goes_on (insert_tree i v w) w'"
  shows "\<exists>sh'. holds cmp eq w' sh'"
proof -
  obtain t where o: "objs w i = Some t" using l by auto
  note it = insert_tree_holds [OF h o, of v]
  show ?thesis
  proof (cases "dup cmp eq v (sh i)")
    case True
    then have "w' = w" using it g by simp
    then show ?thesis using h by blast
  next
    case nd: False
    show ?thesis
    proof (cases "avail w = 0")
      case True
      then show ?thesis using it g nd by simp
    next
      case False
      then have "w' = inserted cmp i v t (sh i) w" using it g nd by simp
      then show ?thesis using holds_inserted [OF h o nd] by blast
    qed
  qed
qed

lemma Range_holds:
  assumes h: "holds cmp eq w sh" and l: "objs w i = None"
    and g: "goes_on (BinaryTree_range i xs cmp eq w) w'"
  shows "\<exists>sh'. holds cmp eq w' sh'"
proof -
  let ?w0 = "w\<lparr>objs := (objs w)(i \<mapsto> \<lparr>root = None, compare = cmp, equal = eq, node_count = 0\<rparr>)\<rparr>"
  have h0: "holds cmp eq ?w0 (sh(i := Leaf))" using h l by (rule BinaryTree_default_holds)
  have o0: "objs ?w0 i = Some \<lparr>root = None, compare = cmp, equal = eq, node_count = 0\<rparr>" by simp
  show ?thesis
  proof (cases "insert_all i xs ?w0")
    case None
    then show ?thesis using g by (simp add: BinaryTree_range_def)
  next
    case (Some r)
    show ?thesis
    proof (cases r)
      case (Return u w1)
      then have r: "insert_all i xs ?w0 = Some (Return () w1)" using Some by simp
      then have "w' = w1" using g by (simp add: BinaryTree_range_def)
      moreover obtain S where "holds cmp eq w1 ((sh(i := Leaf))(i := S))"
        using insert_all_holds [OF h0 o0, of xs w1] r by blast
      ultimately show ?thesis by blast
    next
      case (Throw e w1)
      show ?thesis
      proof (cases e)
        case runtime_error
        then have t: "insert_all i xs ?w0 = Some (Throw runtime_error w1)" using Some Throw by simp
        from BinaryTree_range_throws [OF h l t] g
        show ?thesis by simp
      next
        case bad_alloc
        then have "BinaryTree_range i xs cmp eq w =
          then_do (get_obj i w1) (\<lambda>t _. then_do (destroy_tree (root t) w1)
            (\<lambda>_ w2. Some (Throw bad_alloc (w2\<lparr>objs := (objs w2)(i := None)\<rparr>))))"
          using Some Throw by (simp add: BinaryTree_range_def)
        then have "\<not> goes_on (BinaryTree_range i xs cmp eq w) w'"
          by (simp only: cleanup_stops not_False_eq_True)
        then show ?thesis using g by simp
      qed
    next
      case Undefined
      then show ?thesis using g Some by (simp add: BinaryTree_range_def)
    qed
  qed
qed

lemma Copy_holds:
  assumes h: "holds cmp eq w sh" and oi: "objs w i = None" and lj: "objs w j \<noteq> None"
    and g: "goes_on (BinaryTree_copy i j w) w'"
  shows "\<exists>sh'. holds cmp eq w' sh'"
proof -
  obtain ot where oj: "objs w j = Some ot" using lj by auto
  show ?thesis
  proof (cases "nodes (sh j) \<le> avail w")
    case True
    from BinaryTree_copy_ok [OF h oi oj True] g show ?thesis by auto
  next
    case False
    let ?w0 = "w\<lparr>objs := (objs w)(i \<mapsto> blank cmp eq)\<rparr>"
    let ?P = "planted i (blank cmp eq) (pcopy (avail ?w0) (fresh ?w0) (sh j)) ?w0"
    have ji: "j \<noteq> i" using oi oj by auto
    have okj: "obj_ok cmp eq (cells w) ot (sh j)" using h oj by (rule holds_obj)
    then have fj: "compare ot = cmp" "equal ot = eq" by (simp_all add: obj_ok_def)
    have okj0: "obj_ok cmp eq (cells ?w0) ot (sh j)" using okj by simp
    have below: "\<forall>a \<in> addrs (sh j). a < fresh ?w0" using holds_below [OF h oj] by simp
    have "copy_body i j ot ?w0 = Some (Throw bad_alloc ?P)"
      by (rule copy_body_fails [where sh = sh and j = j, OF _ okj0 below]) (use False in simp_all)
    then have "BinaryTree_copy i j w =
          then_do (get_obj i ?P) (\<lambda>t _. then_do (destroy_tree (root t) ?P)
            (\<lambda>_ w2. Some (Throw bad_alloc (w2\<lparr>objs := (objs w2)(i := None)\<rparr>))))"
      unfolding BinaryTree_copy_def copy_body_def [symmetric] blank_def [symmetric]
      using oj fj ji by simp
    then have "\<not> goes_on (BinaryTree_copy i j w) w'"
      by (simp only: cleanup_stops not_False_eq_True)
    then show ?thesis using g by simp
  qed
qed

lemma Assign_holds:
  assumes h: "holds cmp eq w sh" and li: "objs w i \<noteq> None" and lj: "objs w j \<noteq> None"
    and g: "goes_on (operator_assign i j w) w'"
  shows "\<exists>sh'. holds cmp eq w' sh'"
proof (cases "i = j")
  case True
  then have "w' = w" using g by (simp add: operator_assign_def)
  then show ?thesis using h by blast
next
  case False
  obtain t ot where oi: "objs w i = Some t" and oj: "objs w j = Some ot" using li lj by auto
  show ?thesis
  proof (cases "nodes (sh j) \<le> avail w")
    case True
    from operator_assign_ok [OF h oi oj False True] g show ?thesis by auto
  next
    case short: False
    from operator_assign_fails [OF h oi oj False short] g show ?thesis by simp
  qed
qed

lemma Subtree_holds:
  assumes h: "holds cmp eq w sh" and li: "objs w i \<noteq> None" and ores: "objs w res = None"
    and g: "goes_on (subtree cmp eq i v res w) w'"
  shows "\<exists>sh'. holds cmp eq w' sh'"
proof -
  obtain t where oi: "objs w i = Some t" using li by auto
  let ?F = "found cmp eq v (sh i)"
  show ?thesis
  proof (cases "nodes ?F \<le> avail w")
    case True
    from subtree_ok [OF h oi ores True] g show ?thesis by auto
  next
    case False
    let ?w0 = "w\<lparr>objs := (objs w)(res \<mapsto> blank cmp eq)\<rparr>"
    let ?P = "planted res (blank cmp eq) (pcopy (avail ?w0) (fresh ?w0) ?F) ?w0"
    have ir: "i \<noteq> res" using oi ores by auto
    have oki: "obj_ok cmp eq (cells w) t (sh i)" using h oi by (rule holds_obj)
    then have ri: "root t = ptr (sh i)" and l: "laid (cells w) (sh i)"
      and fi: "compare t = cmp" "equal t = eq"
      by (simp_all add: obj_ok_def)
    have lF: "laid (cells ?w0) ?F" using found_laid [OF l] by simp
    have belowF: "\<forall>a \<in> addrs ?F. a < fresh ?w0"
      using holds_below [OF h oi] found_addrs [of cmp eq v "sh i"] by auto
    have o0: "objs ?w0 i = Some t" using oi ir by simp
    have gi: "get_obj i ?w0 = Some (Return t ?w0)" using o0 by simp
    have f: "find_subtree i (root t) v ?w0 = Some (Return (ptr ?F) ?w0)"
      using find_subtree_laid [of ?w0 "sh i" i t v] l o0 ri fi by simp
    have nl: "ptr ?F \<noteq> None" using False by auto
    have c: "copy_subtree (RootRef res) (ptr ?F) ?w0 = Some (Throw bad_alloc ?P)"
      using copy_into [of ?w0 res "blank cmp eq" ?F] lF belowF False by simp
    have unf: "subtree cmp eq i v res w =
       try_catch
         (then_do (get_obj i ?w0) (\<lambda>t _.
          then_do (find_subtree i (root t) v ?w0) (\<lambda>subtree_root w1.
            if subtree_root \<noteq> None then
              then_do (copy_subtree (RootRef res) subtree_root w1) (\<lambda>_ w2.
              then_do (get_obj res w2) (\<lambda>s _.
              then_do (count_nodes (root s) w2) (\<lambda>k w3.
              set_node_count res k w3)))
            else Some (Return () w1))))
         (\<lambda>e w1. then_do (BinaryTree_destroy res w1) (\<lambda>_ w2. Some (Throw e w2)))"
      unfolding subtree_def BinaryTree_default_def blank_def then_do_simps ..
    have "subtree cmp eq i v res w =
          then_do (BinaryTree_destroy res ?P) (\<lambda>_ w2. Some (Throw bad_alloc w2))"
      unfolding unf gi then_do_simps f if_P [OF nl] c try_catch_simps ..
    then have "\<not> goes_on (subtree cmp eq i v res w) w'"
      by (simp only: destroy_stops not_False_eq_True)
    then show ?thesis using g by simp
  qed
qed

lemma Destroy_holds:
  assumes h: "holds cmp eq w sh" and li: "objs w i \<noteq> None"
    and g: "goes_on (BinaryTree_destroy i w) w'"
  shows "\<exists>sh'. holds cmp eq w' sh'"
proof -
  obtain t where oi: "objs w i = Some t" using li by auto
  from BinaryTree_destroy_holds [OF h oi] g
  have "w' = w\<lparr>cells := release (addrs (sh i)) (cells w), objs := (objs w)(i := None)\<rparr>"
    by simp
  then show ?thesis using holds_shrink [OF h oi] by blast
qed

lemma step_holds:
  assumes h: "holds cmp eq w sh" and l: "legal c w" and g: "goes_on (step cmp eq c w) w'"
  shows "\<exists>sh'. holds cmp eq w' sh'"
proof (cases c)
  case (Default i)
  then have "w' = w\<lparr>objs := (objs w)(i \<mapsto> \<lparr>root = None, compare = cmp, equal = eq, node_count = 0\<rparr>)\<rparr>"
    using g by (simp add: BinaryTree_default_def)
  then show ?thesis using BinaryTree_default_holds [OF h, of i] l Default by auto
next
  case (Range i xs)
  then show ?thesis using Range_holds [OF h, of i xs w'] l g by simp
next
  case (Copy i j)
  then show ?thesis using Copy_holds [OF h, of i j w'] l g by simp
next
  case (Assign i j)
  then show ?thesis using Assign_holds [OF h, of i j w'] l g by simp
next
  case (Insert i v)
  then show ?thesis using Insert_holds [OF h, of i v w'] l g by simp
next
  case (Subtree i v r)
  then show ?thesis using Subtree_holds [OF h, of i r v w'] l g by simp
next
  case (Destroy i)
  then show ?thesis using Destroy_holds [OF h, of i w'] l g by simp
qed

lemma run_step:
  "run cmp eq (c # cs) w = Some w' \<Longrightarrow>
   \<exists>w1. legal c w \<and> goes_on (step cmp eq c w) w1 \<and> run cmp eq cs w1 = Some w'"
  by (auto simp: goes_on_def split: if_splits option.splits outcome.splits exn.splits)

lemma run_holds_from:
  "holds cmp eq w sh \<Longrightarrow> run cmp eq cs w = Some w' \<Longrightarrow> \<exists>sh'. holds cmp eq w' sh'"
proof (induction cs arbitrary: w sh)
  case Nil
  then show ?case by auto
next
  case (Cons c cs)
  from run_step [OF Cons.prems(2)]
  obtain w1 where l: "legal c w" and g: "goes_on (step cmp eq c w) w1"
    and r: "run cmp eq cs w1 = Some w'"
    by blast
  from step_holds [OF Cons.prems(1) l g] obtain sh1 where "holds cmp eq w1 sh1" by blast
  then show ?case using r by (rule Cons.IH)
qed

lemma holds_init: "holds cmp eq (init k) (\<lambda>_. Leaf)"
  by (rule holdsI) (simp_all add: init_def)

lemma run_holds: "run cmp eq cs (init k) = Some w \<Longrightarrow> \<exists>sh. holds cmp eq w sh"
  using holds_init by (rule run_holds_from)
section \<open>Searching and printing under the invariant\<close>

lemma found_elem: "found cmp eq v s \<noteq> Leaf \<Longrightarrow> \<exists>x \<in> set (elems s). eq x v"
  by (induction s) (auto split: if_splits)

lemma found_iff:
  assumes s: "strict_weak cmp" and c: "consistent cmp eq"
  shows "bst cmp eq s \<Longrightarrow> (found cmp eq v s \<noteq> Leaf) = (\<exists>x \<in> set (elems s). eq x v)"
proof (induction s)
  case Leaf
  show ?case by simp
next
  case (Br l a x r)
  have tr: "\<And>p q u. cmp p q \<Longrightarrow> cmp q u \<Longrightarrow> cmp p u"
    and un: "\<And>p q u. \<not> cmp p q \<Longrightarrow> \<not> cmp q p \<Longrightarrow> \<not> cmp q u \<Longrightarrow> \<not> cmp u q \<Longrightarrow> \<not> cmp p u \<and> \<not> cmp u p"
    using s unfolding strict_weak_def by blast+
  have e: "\<And>p q. eq p q \<Longrightarrow> \<not> cmp p q \<and> \<not> cmp q p"
    using c unfolding consistent_def by blast
  have L: "\<And>y. y \<in> set (elems l) \<Longrightarrow> cmp y x" and R: "\<And>y. y \<in> set (elems r) \<Longrightarrow> \<not> cmp y x"
    using Br.prems by auto
  have il: "(found cmp eq v l \<noteq> Leaf) = (\<exists>y \<in> set (elems l). eq y v)"
    and ir: "(found cmp eq v r \<noteq> Leaf) = (\<exists>y \<in> set (elems r). eq y v)"
    using Br by simp_all
  show ?case
  proof (cases "eq x v")
    case True
    then show ?thesis by auto
  next
    case nx: False
    show ?thesis
    proof (cases "cmp v x")
      case True
      have "\<not> eq y v" if "y \<in> set (elems r)" for y
      proof
        assume "eq y v"
        then have yv: "\<not> cmp y v" "\<not> cmp v y" using e by blast+
        have nyx: "\<not> cmp y x" using R [OF that] .
        show False
        proof (cases "cmp x y")
          case True
          then have "cmp v y" using tr [OF \<open>cmp v x\<close>] by blast
          then show False using yv by simp
        next
          case False
          then have "\<not> cmp x v \<and> \<not> cmp v x" using un [of x y v] nyx yv by blast
          then show False using \<open>cmp v x\<close> by simp
        qed
      qed
      then show ?thesis using nx True il by auto
    next
      case False
      have "\<not> eq y v" if "y \<in> set (elems l)" for y
      proof
        assume "eq y v"
        then have yv: "\<not> cmp y v" "\<not> cmp v y" using e by blast+
        have yx: "cmp y x" using L [OF that] .
        show False
        proof (cases "cmp x v")
          case True
          then have "cmp y v" using tr [OF yx] by blast
          then show False using yv by simp
        next
          case nxv: False
          then have "\<not> cmp x y \<and> \<not> cmp y x" using un [of x v y] False yv by blast
          then show False using yx by simp
        qed
      qed
      then show ?thesis using nx False ir by auto
    qed
  qed
qed

lemma Val_render [simp]: "(Val x \<in> set (render xs)) = (x \<in> set xs)"
  by (induction xs) auto

lemma operator_out_holds:
  assumes "holds cmp eq w sh" "objs w i = Some t"
  shows "operator_out os i w = Some (Return (os @ render (elems (sh i))) w)"
proof -
  have "obj_ok cmp eq (cells w) t (sh i)" using assms by (rule holds_obj)
  then show ?thesis
    using assms(2) print_in_order_laid [of w "sh i" os]
    by (simp add: operator_out_def obj_ok_def)
qed

lemma exists_tree_holds:
  assumes "holds cmp eq w sh" "objs w i = Some t"
  shows "exists_tree i v w = Some (Return (found cmp eq v (sh i) \<noteq> Leaf) w)"
proof -
  have "obj_ok cmp eq (cells w) t (sh i)" using assms by (rule holds_obj)
  then show ?thesis
    using assms(2) exists_node_laid [of w "sh i" i t v]
    by (simp add: exists_tree_def obj_ok_def)
qed
section \<open>The result of a subtree extraction\<close>

lemma nodes_found: "nodes (found cmp eq v s) \<le> nodes s"
  by (induction s) auto

lemma found_root: "found cmp eq v s = Br l a x r \<Longrightarrow> eq x v"
  by (induction s) (auto split: if_splits)

lemma subtree_missing:
  assumes h: "holds cmp eq w sh" and oi: "objs w i = Some t" and ores: "objs w res = None"
    and m: "found cmp eq v (sh i) = Leaf"
  shows "subtree cmp eq i v res w =
           Some (Return () (w\<lparr>objs := (objs w)(res \<mapsto> \<lparr>root = None, compare = cmp, equal = eq, node_count = 0\<rparr>)\<rparr>))"
proof -
  have "nodes (found cmp eq v (sh i)) \<le> avail w" unfolding m by simp
  from subtree_ok(1) [OF h oi ores this]
  have "subtree cmp eq i v res w = Some (Return () (copied_to res cmp eq Leaf w))"
    unfolding m .
  moreover have "copied_to res cmp eq Leaf w =
     w\<lparr>objs := (objs w)(res \<mapsto> \<lparr>root = None, compare = cmp, equal = eq, node_count = 0\<rparr>)\<rparr>"
    by (rule world.equality) (simp_all add: copied_to_def)
  ultimately show ?thesis by simp
qed

lemma subtree_present:
  assumes h: "holds cmp eq w sh" and oi: "objs w i = Some t" and ores: "objs w res = None"
    and p: "found cmp eq v (sh i) = Br l a x r" and full: "nodes (found cmp eq v (sh i)) \<le> avail w"
  shows "\<exists>nd sub w' t' w''.
           find_subtree i (root t) v w = Some (Return (Some a) w) \<and>
           cells w a = Some nd \<and> eq (data nd) v \<and>
           print_in_order (Some a) [] w = Some (Return sub w) \<and>
           subtree cmp eq i v res w = Some (Return () w') \<and>
           objs w' res = Some t' \<and> objs w' i = Some t \<and>
           operator_out [] res w' = Some (Return sub w') \<and>
           node_count t' = nodes (found cmp eq v (sh i)) \<and>
           count_nodes (root t') w' = Some (Return (node_count t') w') \<and>
           BinaryTree_destroy i w' = Some (Return () w'') \<and>
           operator_out [] res w'' = Some (Return sub w'')"
proof -
  let ?F = "found cmp eq v (sh i)"
  let ?S = "pcopy (avail w) (fresh w) ?F"
  let ?w' = "copied_to res cmp eq ?F w"
  let ?sh' = "sh(res := ?S)"
  let ?t' = "\<lparr>root = ptr ?S, compare = cmp, equal = eq, node_count = nodes ?F\<rparr>"
  let ?w'' = "?w'\<lparr>cells := release (addrs (?sh' i)) (cells ?w'), objs := (objs ?w')(i := None)\<rparr>"
  have ir: "i \<noteq> res" using oi ores by auto
  have oki: "obj_ok cmp eq (cells w) t (sh i)" using h oi by (rule holds_obj)
  then have ri: "root t = ptr (sh i)" and li: "laid (cells w) (sh i)"
    and fi: "compare t = cmp" "equal t = eq" and ni: "node_count t = nodes (sh i)"
    by (simp_all add: obj_ok_def)
  have nF: "nodes ?F \<le> avail w" using full .
  have lF: "laid (cells w) ?F" using li by (rule found_laid)
  have pF: "ptr ?F = Some a" unfolding p by simp
  have 1: "find_subtree i (root t) v w = Some (Return (Some a) w)"
    using find_subtree_laid [OF li oi, of v] unfolding ri fi pF .
  have c: "cells w a = Some \<lparr>data = x, left = ptr l, right = ptr r\<rparr>"
    using lF unfolding p by simp
  have e: "eq x v" using p by (rule found_root)
  have 2: "print_in_order (Some a) [] w = Some (Return (render (elems ?F)) w)"
    using print_in_order_laid [OF lF, of "[]"] unfolding pF by simp
  note so = subtree_ok [OF h oi ores nF]
  have o': "objs ?w' res = Some ?t'" by (simp add: copied_to_def)
  have oi': "objs ?w' i = Some t" using oi ir by (simp add: copied_to_def)
  have eS: "elems (?sh' res) = elems ?F" using nF by (simp add: elems_pcopy)
  have 3: "operator_out [] res ?w' = Some (Return (render (elems ?F)) ?w')"
    using operator_out_holds [OF so(2) o', of "[]"] unfolding eS by simp
  have ok': "obj_ok cmp eq (cells ?w') ?t' (?sh' res)" using so(2) o' by (rule holds_obj)
  then have "laid (cells ?w') (?sh' res)" and "root ?t' = ptr (?sh' res)"
    and "node_count ?t' = nodes (?sh' res)"
    by (simp_all only: obj_ok_def)
  then have 4: "count_nodes (root ?t') ?w' = Some (Return (node_count ?t') ?w')"
    using count_nodes_laid [of ?w' "?sh' res"] by simp
  have 5: "BinaryTree_destroy i ?w' = Some (Return () ?w'')"
    using so(2) oi' by (rule BinaryTree_destroy_holds)
  have h'': "holds cmp eq ?w'' ?sh'" using so(2) oi' by (rule holds_shrink)
  have o'': "objs ?w'' res = Some ?t'" using ir by (simp add: copied_to_def)
  have 6: "operator_out [] res ?w'' = Some (Return (render (elems ?F)) ?w'')"
    using operator_out_holds [OF h'' o'', of "[]"] unfolding eS by simp
  show ?thesis
    using 1 c e 2 so(1) o' oi' 3 4 5 6
    by (intro exI [of _ "\<lparr>data = x, left = ptr l, right = ptr r\<rparr>"] exI [of _ "render (elems ?F)"]
          exI [of _ ?w'] exI [of _ ?t'] exI [of _ ?w'']) simp
qed
section \<open>In-order iteration\<close>

text \<open>
  The iterator on a tree laid out as a shape, when the relation \<^verbatim>\<open>findNext\<close>
  compares with is the ordering the tree was built with: \<^verbatim>\<open>findNext\<close> returns the
  node that follows in the in-order traversal, and the loop from \<^verbatim>\<open>begin()\<close> to
  \<^verbatim>\<open>end()\<close> visits the elements in that order.
\<close>

lemma walk_elems: "map snd (walk s) = elems s"
  by (induction s) simp_all

lemma walk_addrs: "fst ` set (walk s) = addrs s"
  by (induction s) auto

lemma walk_distinct: "sep s \<Longrightarrow> distinct (map fst (walk s))"
proof (induction s)
  case Leaf
  show ?case by simp
next
  case (Br l a x r)
  then show ?case using walk_addrs [of l] walk_addrs [of r] by auto
qed

lemma first_None [simp]: "(first s = None) = (s = Leaf)"
  by (induction s) (auto split: option.splits)

lemma first_walk: "first s = (case walk s of [] \<Rightarrow> None | q # _ \<Rightarrow> Some (fst q))"
proof (induction s)
  case Leaf
  show ?case by simp
next
  case (Br l a x r)
  show ?case
  proof (cases "walk l")
    case Nil
    then have "first l = None" using Br.IH(1) by simp
    then show ?thesis using Nil by simp
  next
    case (Cons q qs)
    then have "first l = Some (fst q)" using Br.IH(1) by simp
    then show ?thesis using Cons by simp
  qed
qed

lemma next_in_append:
  "next_in (xs @ ys) a d =
     (if a \<in> fst ` set xs then next_in xs a (case ys of [] \<Rightarrow> d | q # _ \<Rightarrow> Some (fst q))
      else next_in ys a d)"
proof (induction xs)
  case Nil
  show ?case by simp
next
  case (Cons p ps)
  show ?case
  proof (cases "a = fst p")
    case True
    then show ?thesis by (cases ps) simp_all
  next
    case False
    then show ?thesis using Cons.IH by simp
  qed
qed

lemma nxt_walk: "sep s \<Longrightarrow> nxt s a d = next_in (walk s) a d"
proof (induction s arbitrary: d)
  case Leaf
  show ?case by simp
next
  case (Br l b y r)
  have l: "nxt l a (Some b) = next_in (walk l) a (Some b)" and r: "nxt r a d = next_in (walk r) a d"
    using Br by simp_all
  have nb: "b \<notin> addrs l" using Br.prems by simp
  show ?case
  proof (cases "a = b")
    case True
    then have "a \<notin> fst ` set (walk l)" using nb by (simp add: walk_addrs)
    then show ?thesis using True by (simp add: next_in_append first_walk split: list.splits)
  next
    case False
    then show ?thesis using l r by (simp add: next_in_append walk_addrs)
  qed
qed

lemma next_in_split:
  "distinct (map fst (pre @ (a, x) # post)) \<Longrightarrow>
   next_in (pre @ (a, x) # post) a d = (case post of [] \<Rightarrow> d | q # _ \<Rightarrow> Some (fst q))"
  by (induction pre) auto

lemma laid_data: "laid c s \<Longrightarrow> a \<in> addrs s \<Longrightarrow> c a = Some n \<Longrightarrow> data n \<in> set (elems s)"
  by (induction s) auto

lemma laid_walk: "laid c s \<Longrightarrow> (a, x) \<in> set (walk s) \<Longrightarrow> \<exists>n. c a = Some n \<and> data n = x"
  by (induction s) auto

lemma leftmost_laid:
  "laid (cells w) s \<Longrightarrow> s \<noteq> Leaf \<Longrightarrow> leftmost (ptr s) w = Some (Return (first s) w)"
proof (induction s)
  case Leaf
  then show ?case by simp
next
  case (Br l a x r)
  show ?case
  proof (cases "l = Leaf")
    case True
    then show ?thesis using Br.prems by (subst leftmost.simps) simp
  next
    case False
    then have "leftmost (ptr l) w = Some (Return (first l) w)" using Br by simp
    moreover obtain b where "first l = Some b" using False by (cases "first l") simp_all
    ultimately show ?thesis using Br.prems False by (subst leftmost.simps) simp
  qed
qed

lemma right_child_next:
  "laid (cells w) s \<Longrightarrow> sep s \<Longrightarrow> a \<in> addrs s \<Longrightarrow> cells w a = Some n \<Longrightarrow> right n \<noteq> None \<Longrightarrow>
   leftmost (right n) w = Some (Return (nxt s a d) w)"
proof (induction s arbitrary: d)
  case Leaf
  then show ?case by simp
next
  case (Br l b y r)
  show ?case
  proof (cases "a = b")
    case True
    then have n: "n = \<lparr>data = y, left = ptr l, right = ptr r\<rparr>" using Br.prems by simp
    then have r: "r \<noteq> Leaf" using Br.prems(5) by auto
    then obtain c where c: "first r = Some c" by (cases "first r") simp_all
    have "leftmost (ptr r) w = Some (Return (first r) w)"
      using Br.prems(1) r by (simp add: leftmost_laid)
    then show ?thesis using True n c by simp
  next
    case nb: False
    show ?thesis
    proof (cases "a \<in> addrs l")
      case True
      then have "leftmost (right n) w = Some (Return (nxt l a (Some b)) w)"
        using Br.IH(1) [of "Some b"] Br.prems by simp
      then show ?thesis using nb True by simp
    next
      case False
      then have "a \<in> addrs r" using Br.prems(3) nb by simp
      then have "leftmost (right n) w = Some (Return (nxt r a d) w)"
        using Br.IH(2) [of d] Br.prems by simp
      then show ?thesis using nb False by simp
    qed
  qed
qed

lemma ancestor_loop_next:
  "laid (cells w) s \<Longrightarrow> sep s \<Longrightarrow> bst cmp eq s \<Longrightarrow> a \<in> addrs s \<Longrightarrow> cells w a = Some n \<Longrightarrow>
   right n = None \<Longrightarrow>
   ancestor_loop cmp (Some a) d (ptr s) w = Some (Return (nxt s a d) w)"
proof (induction s arbitrary: d)
  case Leaf
  then show ?case by simp
next
  case (Br l b y r)
  have cb: "cells w b = Some \<lparr>data = y, left = ptr l, right = ptr r\<rparr>" using Br.prems(1) by simp
  show ?case
  proof (cases "a = b")
    case True
    then have "r = Leaf" using Br.prems(5,6) cb by auto
    then show ?thesis using True by (subst ancestor_loop.simps) simp
  next
    case nb: False
    show ?thesis
    proof (cases "a \<in> addrs l")
      case True
      have "data n \<in> set (elems l)" using Br.prems(1,5) True laid_data [of "cells w" l a n] by simp
      then have lt: "cmp (data n) y" using Br.prems(3) by simp
      have "ancestor_loop cmp (Some a) (Some b) (ptr l) w = Some (Return (nxt l a (Some b)) w)"
        using Br.IH(1) [of "Some b"] Br.prems True by simp
      then show ?thesis
        using nb True lt cb Br.prems(5) by (subst ancestor_loop.simps) simp
    next
      case False
      then have ar: "a \<in> addrs r" using Br.prems(4) nb by simp
      have "data n \<in> set (elems r)" using Br.prems(1,5) ar laid_data [of "cells w" r a n] by simp
      then have lt: "\<not> cmp (data n) y" using Br.prems(3) by simp
      have "ancestor_loop cmp (Some a) d (ptr r) w = Some (Return (nxt r a d) w)"
        using Br.IH(2) [of d] Br.prems ar by simp
      then show ?thesis
        using nb False lt cb Br.prems(5) by (subst ancestor_loop.simps) simp
    qed
  qed
qed

lemma findNext_laid:
  assumes "laid (cells w) s" "sep s" "bst cmp eq s" "a \<in> addrs s" "root_it it = ptr s"
  shows "findNext cmp it (Some a) w = Some (Return (nxt s a None) w)"
proof -
  obtain n where n: "cells w a = Some n"
    using laid_allocated [OF assms(1,4)] by auto
  show ?thesis
  proof (cases "right n = None")
    case True
    then show ?thesis
      using n assms(5) ancestor_loop_next [OF assms(1-4) n True, of None]
      by (simp add: findNext_def)
  next
    case False
    then show ?thesis
      using n right_child_next [OF assms(1,2,4) n False, of None]
      by (simp add: findNext_def)
  qed
qed

lemma iterate_loop_laid:
  assumes l: "laid (cells w) s" and s: "sep s" and b: "bst cmp eq s"
    and o: "objs w i = Some t"
  shows "walk s = pre @ (a, x) # post \<Longrightarrow>
         iterate_loop cmp i \<lparr>current = Some a, root_it = ptr s\<rparr> seen w =
           Some (Return (seen @ x # map snd post) w)"
proof (induction post arbitrary: pre a x seen)
  case Nil
  have m: "(a, x) \<in> set (walk s)" unfolding Nil by simp
  then obtain n where n: "cells w a = Some n" "data n = x" using laid_walk [OF l] by blast
  have a: "a \<in> addrs s" using m walk_addrs [of s] by force
  have "distinct (map fst (pre @ (a, x) # []))" using walk_distinct [OF s] unfolding Nil .
  then have "next_in (walk s) a None = None" unfolding Nil by (simp add: next_in_split)
  then have "nxt s a None = None" using s by (simp add: nxt_walk)
  then have f: "findNext cmp \<lparr>current = Some a, root_it = ptr s\<rparr> (Some a) w = Some (Return None w)"
    using findNext_laid [OF l s b a, of "\<lparr>current = Some a, root_it = ptr s\<rparr>"] by simp
  have e: "iterate_loop cmp i \<lparr>current = None, root_it = ptr s\<rparr> (seen @ [x]) w =
             Some (Return (seen @ [x]) w)"
    using o by (subst iterate_loop.simps)
      (simp add: end_tree_def const_iterator_new_def operator_neq_def operator_eq_def)
  show ?case
    using o n f e by (subst iterate_loop.simps)
      (simp add: end_tree_def const_iterator_new_def operator_neq_def operator_eq_def
         operator_deref_def operator_incr_def)
next
  case (Cons q qs)
  obtain c z where q: "q = (c, z)" by (cases q)
  have m: "(a, x) \<in> set (walk s)" unfolding Cons.prems by simp
  then obtain n where n: "cells w a = Some n" "data n = x" using laid_walk [OF l] by blast
  have a: "a \<in> addrs s" using m walk_addrs [of s] by force
  have "distinct (map fst (pre @ (a, x) # q # qs))" using walk_distinct [OF s] unfolding Cons.prems .
  then have "next_in (walk s) a None = Some c" unfolding Cons.prems q by (simp add: next_in_split)
  then have "nxt s a None = Some c" using s by (simp add: nxt_walk)
  then have f: "findNext cmp \<lparr>current = Some a, root_it = ptr s\<rparr> (Some a) w = Some (Return (Some c) w)"
    using findNext_laid [OF l s b a, of "\<lparr>current = Some a, root_it = ptr s\<rparr>"] by simp
  have "walk s = (pre @ [(a, x)]) @ (c, z) # qs" unfolding Cons.prems q by simp
  then have e: "iterate_loop cmp i \<lparr>current = Some c, root_it = ptr s\<rparr> (seen @ [x]) w =
             Some (Return ((seen @ [x]) @ z # map snd qs) w)"
    by (rule Cons.IH)
  show ?case
    using o n f e q by (subst iterate_loop.simps)
      (simp add: end_tree_def const_iterator_new_def operator_neq_def operator_eq_def
         operator_deref_def operator_incr_def)
qed

lemma iterate_laid:
  assumes l: "laid (cells w) s" and s: "sep s" and b: "bst cmp eq s"
    and o: "objs w i = Some t" and r: "root t = ptr s"
  shows "iterate cmp i w = Some (Return (elems s) w)"
proof (cases "walk s")
  case Nil
  then have "s = Leaf" by (cases s) simp_all
  moreover have "iterate_loop cmp i \<lparr>current = None, root_it = None\<rparr> [] w = Some (Return [] w)"
    using o by (subst iterate_loop.simps)
      (simp add: end_tree_def const_iterator_new_def operator_neq_def operator_eq_def)
  ultimately show ?thesis
    using o r by (simp add: iterate_def begin_tree_def const_iterator_new_def)
next
  case (Cons q qs)
  obtain a x where q: "q = (a, x)" by (cases q)
  have ne: "s \<noteq> Leaf" using Cons by auto
  have f: "first s = Some a" using Cons q by (simp add: first_walk)
  have lm: "leftmost (ptr s) w = Some (Return (Some a) w)"
    using leftmost_laid [OF l ne] f by simp
  have "walk s = [] @ (a, x) # qs" using Cons q by simp
  from iterate_loop_laid [OF l s b o this, of "[]"]
  have "iterate_loop cmp i \<lparr>current = Some a, root_it = ptr s\<rparr> [] w =
          Some (Return (x # map snd qs) w)" by simp
  moreover have "elems s = x # map snd qs" using walk_elems [of s] Cons q by simp
  ultimately show ?thesis
    using o r ne lm by (simp add: iterate_def begin_tree_def const_iterator_new_def)
qed

lemma bst_not_descending:
  assumes s: "strict_weak cmp"
  shows "bst cmp eq s \<Longrightarrow> sorted_wrt (\<lambda>a b. \<not> cmp b a) (elems s)"
proof (induction s)
  case Leaf
  show ?case by simp
next
  case (Br l a x r)
  have ir: "\<And>p. \<not> cmp p p" and tr: "\<And>p q u. cmp p q \<Longrightarrow> cmp q u \<Longrightarrow> cmp p u"
    using s unfolding strict_weak_def by blast+
  have L: "\<And>y. y \<in> set (elems l) \<Longrightarrow> cmp y x" and R: "\<And>z. z \<in> set (elems r) \<Longrightarrow> \<not> cmp z x"
    using Br.prems by simp_all
  have L': "\<And>y. y \<in> set (elems l) \<Longrightarrow> \<not> cmp x y" using L ir tr by blast
  have LR: "\<And>y z. y \<in> set (elems l) \<Longrightarrow> z \<in> set (elems r) \<Longrightarrow> \<not> cmp z y"
    using L R tr by blast
  have "sorted_wrt (\<lambda>a b. \<not> cmp b a) (elems l)" "sorted_wrt (\<lambda>a b. \<not> cmp b a) (elems r)"
    using Br by simp_all
  then show ?case using L' R LR by (simp add: sorted_wrt_append)
qed

lemma bst_ascending:
  assumes s: "strict_weak cmp" and f: "\<forall>a b. \<not> cmp a b \<longrightarrow> \<not> cmp b a \<longrightarrow> eq a b"
  shows "bst cmp eq s \<Longrightarrow> sorted_wrt cmp (elems s)"
proof (induction s)
  case Leaf
  show ?case by simp
next
  case (Br l a x r)
  have tr: "\<And>p q u. cmp p q \<Longrightarrow> cmp q u \<Longrightarrow> cmp p u"
    using s unfolding strict_weak_def by blast
  have L: "\<And>y. y \<in> set (elems l) \<Longrightarrow> cmp y x" using Br.prems by simp
  have R: "\<And>z. z \<in> set (elems r) \<Longrightarrow> cmp x z"
  proof -
    fix z assume "z \<in> set (elems r)"
    then have "\<not> eq z x" "\<not> cmp z x" using Br.prems by simp_all
    then show "cmp x z" using f by blast
  qed
  have LR: "\<And>y z. y \<in> set (elems l) \<Longrightarrow> z \<in> set (elems r) \<Longrightarrow> cmp y z"
    using L R tr by blast
  have "sorted_wrt cmp (elems l)" "sorted_wrt cmp (elems r)" using Br by simp_all
  then show ?case using L R LR by (simp add: sorted_wrt_append)
qed

text \<open>
  When the element type's \<^verbatim>\<open><\<close> is the ordering the tree is configured with, the
  iteration from \<^verbatim>\<open>begin()\<close> to \<^verbatim>\<open>end()\<close> visits the elements that \<^verbatim>\<open>operator<<\<close> prints,
  in the same order.  For a strict weak ordering this order never descends, and
  it is strictly ascending when unordered elements are equal.
\<close>

lemma iterate_in_order:
  assumes "run cmp eq prog (init k) = Some w" and "objs w i = Some t"
  shows "\<exists>xs. iterate cmp i w = Some (Return xs w) \<and>
           operator_out [] i w = Some (Return (render xs) w) \<and>
           (strict_weak cmp \<longrightarrow> sorted_wrt (\<lambda>a b. \<not> cmp b a) xs) \<and>
           (strict_weak cmp \<and> (\<forall>a b. \<not> cmp a b \<longrightarrow> \<not> cmp b a \<longrightarrow> eq a b) \<longrightarrow> sorted_wrt cmp xs)"
proof -
  obtain sh where h: "holds cmp eq w sh" using run_holds [OF assms(1)] by blast
  have "obj_ok cmp eq (cells w) t (sh i)" using h assms(2) by (rule holds_obj)
  then have r: "root t = ptr (sh i)" and l: "laid (cells w) (sh i)" and s: "sep (sh i)"
    and b: "bst cmp eq (sh i)"
    by (simp_all add: obj_ok_def)
  have "iterate cmp i w = Some (Return (elems (sh i)) w)"
    using l s b assms(2) r by (rule iterate_laid)
  moreover have "operator_out [] i w = Some (Return (render (elems (sh i))) w)"
    using operator_out_holds [OF h assms(2), of "[]"] by simp
  moreover have "strict_weak cmp \<longrightarrow> sorted_wrt (\<lambda>a b. \<not> cmp b a) (elems (sh i))"
    using b by (simp add: bst_not_descending)
  moreover have "strict_weak cmp \<and> (\<forall>a b. \<not> cmp a b \<longrightarrow> \<not> cmp b a \<longrightarrow> eq a b)
      \<longrightarrow> sorted_wrt cmp (elems (sh i))"
    using b bst_ascending [of cmp eq "sh i"] by blast
  ultimately show ?thesis by blast
qed
section \<open>The elements a sequence of insertions leaves in a tree\<close>

lemma insert_each_holds:
  "holds cmp eq w sh \<Longrightarrow> objs w i = Some t \<Longrightarrow> insert_each i xs done w = Some (ys, w') \<Longrightarrow>
   \<exists>sh' t' zs. holds cmp eq w' sh' \<and> objs w' i = Some t' \<and> ys = done @ zs \<and>
      set (elems (sh' i)) = set (elems (sh i)) \<union> set zs"
proof (induction xs arbitrary: "done" w sh t)
  case Nil
  then have "ys = done @ []" "w' = w" by simp_all
  then show ?case using Nil.prems(1,2) by (intro exI [of _ sh] exI [of _ t] exI [of _ "[]"]) simp
next
  case (Cons x xs)
  note h = Cons.prems(1) and o = Cons.prems(2)
  note it = insert_tree_holds [OF h o, of x]
  show ?case
  proof (cases "dup cmp eq x (sh i)")
    case True
    then have "insert_tree i x w = Some (Throw runtime_error w)" using it by simp
    then have "insert_each i xs done w = Some (ys, w')" using Cons.prems(3) by simp
    from Cons.IH [OF h o this] show ?thesis .
  next
    case nd: False
    show ?thesis
    proof (cases "avail w = 0")
      case True
      then have "insert_tree i x w =
          Some (Throw bad_alloc (w\<lparr>objs := (objs w)(i \<mapsto> t\<lparr>node_count := Suc (node_count t)\<rparr>)\<rparr>))"
        using it nd by simp
      then show ?thesis using Cons.prems(3) by simp
    next
      case False
      let ?w1 = "inserted cmp i x t (sh i) w"
      let ?s1 = "ins cmp x (fresh w) (sh i)"
      have "insert_tree i x w = Some (Return () ?w1)" using it nd False by simp
      then have e: "insert_each i xs (done @ [x]) ?w1 = Some (ys, w')" using Cons.prems(3) by simp
      have h1: "holds cmp eq ?w1 (sh(i := ?s1))" using h o nd by (rule holds_inserted)
      have o1: "objs ?w1 i = Some (t\<lparr>node_count := Suc (node_count t), root := ptr ?s1\<rparr>)"
        by (simp add: inserted_def)
      from Cons.IH [OF h1 o1 e]
      obtain sh' t' zs where r: "holds cmp eq w' sh'" "objs w' i = Some t'" "ys = (done @ [x]) @ zs"
        "set (elems (sh' i)) = set (elems ((sh(i := ?s1)) i)) \<union> set zs"
        by blast
      have "set (elems (sh' i)) = set (elems (sh i)) \<union> set (x # zs)"
        using r(4) by (simp add: elems_ins)
      moreover have "ys = done @ x # zs" using r(3) by simp
      ultimately show ?thesis using r(1,2) by blast
    qed
  qed
qed

section \<open>Duplicate insertions\<close>

lemma insert_node_duplicate:
  assumes "objs w this = Some t"
  shows "descends t w v p a \<Longrightarrow> cells w a = Some n \<Longrightarrow> equal t v (data n) \<Longrightarrow>
         insert_node this p v w = Some (Throw runtime_error w)"
proof (induction rule: descends.induct)
  case (here a)
  then show ?case using assms by (subst insert_node.simps) simp
next
  case (go_left b m a)
  then show ?case using assms by (subst insert_node.simps) simp
next
  case (go_right b m a)
  then show ?case using assms by (subst insert_node.simps) simp
qed

text \<open>
  C2.  When the descent of \<^verbatim>\<open>insert(v)\<close> from the root reaches a node whose element
  \<^verbatim>\<open>equal\<close> declares equal to \<open>v\<close>, the call throws the \<^verbatim>\<open>std::runtime_error\<close> of the
  duplicate insertion, and the store in which the exception leaves the call is
  the store in which the call started: no node, no counter and no link has
  changed, so the size and the in-order sequence are what they were.
\<close>

theorem insert_duplicate_unchanged:
  assumes "objs w this = Some t"
    and "descends t w v (root t) a"
    and "cells w a = Some n"
    and "equal t v (data n)"
  shows "insert_tree this v w = Some (Throw runtime_error w)"
  using insert_node_duplicate [OF assms] assms(1) by (simp add: insert_tree_def)

theorem insert_duplicate_unchanged_witness:
  "objs world53 0 = Some tree53 \<and>
   descends tree53 world53 3 (root tree53) 1 \<and>
   cells world53 1 = Some \<lparr>data = 3, left = None, right = None\<rparr> \<and>
   equal tree53 3 (data \<lparr>data = 3::int, left = None, right = None\<rparr>) \<and>
   insert_tree 0 3 world53 = Some (Throw runtime_error world53)"
proof -
  have o: "objs world53 0 = Some tree53"
    by (simp add: world53_def)
  have c: "cells world53 1 = Some \<lparr>data = 3, left = None, right = None\<rparr>"
    by (simp add: world53_def)
  have "descends tree53 world53 3 (Some 0) 1"
    by (rule descends.go_left [where n = "\<lparr>data = 5, left = Some 1, right = None\<rparr>"])
       (simp_all add: world53_def tree53_def descends.here)
  then have d: "descends tree53 world53 3 (root tree53) 1"
    by (simp add: tree53_def)
  have e: "equal tree53 3 (data \<lparr>data = 3::int, left = None, right = None\<rparr>)"
    by (simp add: tree53_def)
  show ?thesis
    using insert_duplicate_unchanged [OF o d c e] o c d e by simp
qed

text \<open>
  C9.  At every node the private \<^verbatim>\<open>insert\<close> is called on, the equality test comes
  first: when \<^verbatim>\<open>equal(value, node->data)\<close> holds the call throws, whatever relation
  \<open>cmp\<close> the tree holds as its ordering.  Hence \<^verbatim>\<open>insert(v)\<close> throws as soon as its
  descent reaches such a node, and nothing is assumed about what the ordering
  says of \<open>v\<close> and that node's value.
\<close>

theorem insert_equality_checked_first:
  assumes "objs w this = Some t"
    and "descends t w v (root t) a"
    and "cells w a = Some n"
    and "equal t v (data n)"
  shows "(\<exists>w'. insert_tree this v w = Some (Throw runtime_error w')) \<and>
         (\<forall>cmp. insert_node this (Some a) v (w\<lparr>objs := (objs w)(this \<mapsto> t\<lparr>compare := cmp\<rparr>)\<rparr>)
                = Some (Throw runtime_error (w\<lparr>objs := (objs w)(this \<mapsto> t\<lparr>compare := cmp\<rparr>)\<rparr>)))"
proof
  show "\<exists>w'. insert_tree this v w = Some (Throw runtime_error w')"
    using insert_node_duplicate [OF assms] assms(1) by (simp add: insert_tree_def)
  show "\<forall>cmp. insert_node this (Some a) v (w\<lparr>objs := (objs w)(this \<mapsto> t\<lparr>compare := cmp\<rparr>)\<rparr>)
                = Some (Throw runtime_error (w\<lparr>objs := (objs w)(this \<mapsto> t\<lparr>compare := cmp\<rparr>)\<rparr>))"
    using assms(3,4) by (subst insert_node.simps) simp
qed

theorem insert_equality_checked_first_witness:
  "objs world53_odd 0 = Some tree53_odd \<and>
   descends tree53_odd world53_odd 3 (root tree53_odd) 1 \<and>
   cells world53_odd 1 = Some \<lparr>data = 3, left = None, right = None\<rparr> \<and>
   equal tree53_odd 3 (data \<lparr>data = 3::int, left = None, right = None\<rparr>) \<and>
   compare tree53_odd 3 (data \<lparr>data = 3::int, left = None, right = None\<rparr>) \<and>
   (\<exists>w'. insert_tree 0 3 world53_odd = Some (Throw runtime_error w'))"
proof -
  have o: "objs world53_odd 0 = Some tree53_odd"
    by (simp add: world53_odd_def)
  have c: "cells world53_odd 1 = Some \<lparr>data = 3, left = None, right = None\<rparr>"
    by (simp add: world53_odd_def)
  have "descends tree53_odd world53_odd 3 (Some 0) 1"
    by (rule descends.go_left [where n = "\<lparr>data = 5, left = Some 1, right = None\<rparr>"])
       (simp_all add: world53_odd_def tree53_odd_def descends.here)
  then have d: "descends tree53_odd world53_odd 3 (root tree53_odd) 1"
    by (simp add: tree53_odd_def)
  have e: "equal tree53_odd 3 (data \<lparr>data = 3::int, left = None, right = None\<rparr>)"
    by (simp add: tree53_odd_def)
  have k: "compare tree53_odd 3 (data \<lparr>data = 3::int, left = None, right = None\<rparr>)"
    by (simp add: tree53_odd_def)
  show ?thesis
    using insert_equality_checked_first [OF o d c e] o c d e k by blast
qed

section \<open>The empty tree\<close>

text \<open>
  C10.  On a tree without a root, \<^verbatim>\<open>begin()\<close> and \<^verbatim>\<open>end()\<close> both return the iterator
  whose \<^verbatim>\<open>current\<close> is null, \<^verbatim>\<open>operator==\<close> holds between them, and the loop from
  \<^verbatim>\<open>begin()\<close> to \<^verbatim>\<open>end()\<close> stops at once with the empty sequence, without a single
  dereference.
\<close>

theorem empty_tree_begin_is_end:
  assumes "objs w this = Some t" and "root t = None"
  shows "begin_tree this w = Some (Return \<lparr>current = None, root_it = None\<rparr> w) \<and>
         end_tree this w = Some (Return \<lparr>current = None, root_it = None\<rparr> w) \<and>
         operator_eq \<lparr>current = None, root_it = None\<rparr> \<lparr>current = None, root_it = None\<rparr> \<and>
         iterate lt this w = Some (Return [] w)"
proof -
  have b: "begin_tree this w = Some (Return \<lparr>current = None, root_it = None\<rparr> w)"
    using assms by (simp add: begin_tree_def const_iterator_new_def)
  have e: "end_tree this w = Some (Return \<lparr>current = None, root_it = None\<rparr> w)"
    using assms by (simp add: end_tree_def const_iterator_new_def)
  have "iterate_loop lt this \<lparr>current = None, root_it = None\<rparr> [] w = Some (Return [] w)"
    by (subst iterate_loop.simps) (simp add: e operator_neq_def operator_eq_def)
  then show ?thesis
    using b e by (simp add: iterate_def operator_eq_def)
qed

theorem empty_tree_begin_is_end_witness:
  "objs world_empty 0 = Some tree_empty \<and> root tree_empty = None \<and>
   begin_tree 0 world_empty = end_tree 0 world_empty \<and>
   iterate (<) 0 world_empty = Some (Return [] world_empty)"
proof -
  have o: "objs world_empty 0 = Some tree_empty"
    by (simp add: world_empty_def)
  have r: "root tree_empty = None"
    by (simp add: tree_empty_def)
  show ?thesis
    using empty_tree_begin_is_end [OF o r, of "(<)"] o r by simp
qed

section \<open>The size of a tree\<close>

text \<open>
  C7.  In every store a client program can reach (by constructions, successful or
  duplicate-failing insertions, copies, assignments, subtree extractions and
  destructions), every live tree object has a stored count, returned by
  \<^verbatim>\<open>size()\<close> without looking at a node, that is the number \<^verbatim>\<open>count_nodes(root)\<close>
  obtains by visiting every node reachable from the root.
\<close>

theorem size_is_node_count:
  assumes "run cmp eq prog (init k) = Some w" and "objs w i = Some t"
  shows "size_tree i w = Some (Return (node_count t) w) \<and>
         count_nodes (root t) w = Some (Return (node_count t) w)"
proof -
  obtain sh where h: "holds cmp eq w sh" using run_holds [OF assms(1)] by blast
  have "obj_ok cmp eq (cells w) t (sh i)" using h assms(2) by (rule holds_obj)
  then show ?thesis
    using assms(2) count_nodes_laid [of w "sh i"] by (simp add: size_tree_def obj_ok_def)
qed

theorem size_is_node_count_witness:
  "\<exists>w t. run (<) (=) demo (init 20) = Some w \<and> objs w 0 = Some t \<and>
     size_tree 0 w = Some (Return (node_count t) w) \<and>
     count_nodes (root t) w = Some (Return (node_count t) w) \<and> node_count t = 4"
proof -
  have "case run (<) (=) demo (init 20) of None \<Rightarrow> False
        | Some w \<Rightarrow> (case objs w 0 of None \<Rightarrow> False | Some t \<Rightarrow> node_count t = 4)"
    by (simp add: demo_def client exec)
  then obtain w t where r: "run (<) (=) demo (init 20) = Some w" and o: "objs w 0 = Some t"
    and n: "node_count t = 4"
    by (auto split: option.splits)
  from size_is_node_count [OF r o] r o n show ?thesis by blast
qed

section \<open>Failure of the range constructor\<close>

text \<open>
  C3.  The range constructor inserts the elements of the sequence one after
  another.  When, after the elements \<open>pre\<close> have been inserted, the insertion of
  the next element \<open>x\<close> throws the \<^verbatim>\<open>std::runtime_error\<close> of a duplicate, the
  constructor ends with that exception, every node it has allocated is released
  (the nodes of the store are those from before the call) and the storage
  holds no tree object (the objects of the store are those from before the
  call).
\<close>

theorem range_constructor_failure_releases:
  assumes "run cmp eq prog (init k) = Some w" and "objs w i = None"
    and "insert_all i pre
           (w\<lparr>objs := (objs w)(i \<mapsto> \<lparr>root = None, compare = cmp, equal = eq, node_count = 0\<rparr>)\<rparr>)
         = Some (Return () w1)"
    and "insert_tree i x w1 = Some (Throw runtime_error w2)"
  shows "\<exists>w'. BinaryTree_range i (pre @ x # rest) cmp eq w = Some (Throw runtime_error w') \<and>
           cells w' = cells w \<and> objs w' = objs w"
proof -
  obtain sh where h: "holds cmp eq w sh" using run_holds [OF assms(1)] by blast
  have t: "insert_all i (pre @ x # rest)
           (w\<lparr>objs := (objs w)(i \<mapsto> \<lparr>root = None, compare = cmp, equal = eq, node_count = 0\<rparr>)\<rparr>)
         = Some (Throw runtime_error w2)"
    using assms(3,4) by (rule insert_all_append_throws)
  show ?thesis
    using BinaryTree_range_throws(1) [OF h assms(2) t] by simp
qed

theorem range_constructor_failure_releases_witness:
  "\<exists>w w1 w2 w'. run (<) (=) [Range 0 [4, 2 :: int], Insert 0 6] (init 10) = Some w \<and> objs w 1 = None \<and>
     insert_all 1 [5, 3]
       (w\<lparr>objs := (objs w)(1 \<mapsto> \<lparr>root = None, compare = (<), equal = (=), node_count = 0\<rparr>)\<rparr>)
       = Some (Return () w1) \<and>
     insert_tree 1 5 w1 = Some (Throw runtime_error w2) \<and>
     BinaryTree_range 1 ([5, 3] @ 5 # [9]) (<) (=) w = Some (Throw runtime_error w') \<and>
     cells w' = cells w \<and> objs w' = objs w \<and> cells w 2 \<noteq> None \<and> cells w 3 = None"
proof -
  have "case run (<) (=) [Range 0 [4, 2 :: int], Insert 0 6] (init 10) of None \<Rightarrow> False
        | Some w \<Rightarrow> objs w 1 = None \<and> cells w 2 \<noteq> None \<and> cells w 3 = None \<and>
           (case insert_all 1 [5, 3]
              (w\<lparr>objs := (objs w)(1 \<mapsto> \<lparr>root = None, compare = (<), equal = (=), node_count = 0\<rparr>)\<rparr>) of
              Some (Return u w1) \<Rightarrow>
                (case insert_tree 1 5 w1 of Some (Throw runtime_error w2) \<Rightarrow> True | _ \<Rightarrow> False)
            | _ \<Rightarrow> False)"
    by (simp add: client exec)
  then obtain w w1 w2 where r: "run (<) (=) [Range 0 [4, 2 :: int], Insert 0 6] (init 10) = Some w"
    and o: "objs w 1 = None" and c: "cells w 2 \<noteq> None" "cells w 3 = None"
    and a: "insert_all 1 [5, 3]
       (w\<lparr>objs := (objs w)(1 \<mapsto> \<lparr>root = None, compare = (<), equal = (=), node_count = 0\<rparr>)\<rparr>)
       = Some (Return () w1)"
    and t: "insert_tree 1 5 w1 = Some (Throw runtime_error w2)"
    by (auto split: option.splits outcome.splits exn.splits)
  from range_constructor_failure_releases [OF r o a t, of "[9]"] r o a t c show ?thesis by blast
qed

section \<open>Iteration under an ordering other than \<^verbatim>\<open><\<close>\<close>

text \<open>
  C1, on \<^verbatim>\<open>BinaryTree<int, std::greater<int>>\<close> after \<^verbatim>\<open>insert(5)\<close> and \<^verbatim>\<open>insert(3)\<close>.  The
  tree is configured with the ordering \<open>greater\<close>, and \<^verbatim>\<open>findNext\<close> compares with the
  \<^verbatim>\<open><\<close> of \<^verbatim>\<open>int\<close>.  The iteration starts at the node of 5 and moves to the node of 3;
  the next increment turns left at the root, where there is no node, and reads
  through the null pointer: the iteration has undefined behaviour and yields no
  sequence.
\<close>

theorem iteration_under_greater:
  "run greater (=) [Default 0, Insert 0 5, Insert 0 3] (init 4) = Some world53g \<and>
   begin_tree 0 world53g = Some (Return \<lparr>current = Some 0, root_it = Some 0\<rparr> world53g) \<and>
   operator_incr (<) \<lparr>current = Some 0, root_it = Some 0\<rparr> world53g =
     Some (Return \<lparr>current = Some 1, root_it = Some 0\<rparr> world53g) \<and>
   operator_incr (<) \<lparr>current = Some 1, root_it = Some 0\<rparr> world53g = Some Undefined \<and>
   iterate (<) 0 world53g = Some Undefined"
proof -
  have "run greater (=) [Default 0, Insert 0 5, Insert 0 3] (init 4) = Some world53g"
    by (simp add: client exec world53g_def greater_def) (auto simp add: fun_eq_iff)
  moreover have "begin_tree 0 world53g = Some (Return \<lparr>current = Some 0, root_it = Some 0\<rparr> world53g)"
    by (simp add: exec world53g_def)
  moreover have "operator_incr (<) \<lparr>current = Some 0, root_it = Some 0\<rparr> world53g =
     Some (Return \<lparr>current = Some 1, root_it = Some 0\<rparr> world53g)"
    by (simp add: exec world53g_def)
  moreover have "operator_incr (<) \<lparr>current = Some 1, root_it = Some 0\<rparr> world53g = Some Undefined"
    by (simp add: exec world53g_def)
  moreover have "iterate (<) 0 world53g = Some Undefined"
    by (simp add: exec world53g_def)
  ultimately show ?thesis by simp
qed

text \<open>
  C5, on \<^verbatim>\<open>BinaryTree<int, std::greater<int>>\<close> constructed from the sequence 2, 1, 3.
  \<^verbatim>\<open>operator<<\<close> writes \<^verbatim>\<open>3 2 1\<close>, each element followed by a space; the iteration
  from \<^verbatim>\<open>begin()\<close> to \<^verbatim>\<open>end()\<close>, and \<^verbatim>\<open>printIF\<close> that is written over it, have
  undefined behaviour at the first increment.
\<close>

theorem printing_differs_from_iteration:
  "run greater (=) [Range 0 [2, 1, 3]] (init 4) = Some world213g \<and>
   operator_out [] 0 world213g =
     Some (Return [Val 3, Text '' '', Val 2, Text '' '', Val 1, Text '' ''] world213g) \<and>
   iterate (<) 0 world213g = Some Undefined \<and>
   printIF (<) 0 (\<lambda>x. True) [] world213g = Some Undefined"
proof -
  have "run greater (=) [Range 0 [2, 1, 3]] (init 4) = Some world213g"
    by (simp add: client exec world213g_def greater_def) (auto simp add: fun_eq_iff)
  moreover have "operator_out [] 0 world213g =
     Some (Return [Val 3, Text '' '', Val 2, Text '' '', Val 1, Text '' ''] world213g)"
    by (simp add: exec world213g_def)
  moreover have "iterate (<) 0 world213g = Some Undefined"
    by (simp add: exec world213g_def)
  moreover have "printIF (<) 0 (\<lambda>x. True) [] world213g = Some Undefined"
    by (simp add: exec world213g_def)
  ultimately show ?thesis by simp
qed

section \<open>Membership\<close>

text \<open>
  C8.  A tree is default-constructed in a store a client program has reached,
  and \<^verbatim>\<open>insert\<close> is called on it for the elements of a sequence, some of the calls
  failing on a duplicate; \<open>ys\<close> are the elements whose insertion returned.  When
  the ordering is a strict weak ordering and the two relations are mutually
  consistent, \<^verbatim>\<open>exists(v)\<close> returns, in the unchanged store, whether \<open>v\<close> is equal to
  one of the elements \<open>ys\<close>.
\<close>

theorem exists_iff_inserted:
  assumes "run cmp eq prog (init k) = Some w0" and "objs w0 i = None"
    and "BinaryTree_default cmp eq i w0 = Some (Return () w1)"
    and "insert_each i xs [] w1 = Some (ys, w)"
    and "strict_weak cmp" and "consistent cmp eq"
  shows "exists_tree i v w = Some (Return (\<exists>x \<in> set ys. eq x v) w)"
proof -
  obtain sh where h0: "holds cmp eq w0 sh" using run_holds [OF assms(1)] by blast
  let ?e = "\<lparr>root = None, compare = cmp, equal = eq, node_count = 0\<rparr>"
  have w1: "w1 = w0\<lparr>objs := (objs w0)(i \<mapsto> ?e)\<rparr>"
    using assms(3) by (simp add: BinaryTree_default_def)
  have h1: "holds cmp eq w1 (sh(i := Leaf))"
    unfolding w1 using h0 assms(2) by (rule BinaryTree_default_holds)
  have o1: "objs w1 i = Some ?e" unfolding w1 by simp
  from insert_each_holds [OF h1 o1 assms(4)]
  obtain sh' t' zs where r: "holds cmp eq w sh'" "objs w i = Some t'" "ys = [] @ zs"
    "set (elems (sh' i)) = set (elems ((sh(i := Leaf)) i)) \<union> set zs"
    by blast
  have s: "set (elems (sh' i)) = set ys" using r(3,4) by simp
  have "obj_ok cmp eq (cells w) t' (sh' i)" using r(1,2) by (rule holds_obj)
  then have b: "bst cmp eq (sh' i)" by (simp add: obj_ok_def)
  show ?thesis
    using exists_tree_holds [OF r(1,2), of v] found_iff [OF assms(5,6) b, of v] s
    by simp
qed

theorem exists_iff_inserted_witness:
  "\<exists>w0 w1 w. run by_key (=) [Range 1 [(4, 0), (2, 0)]] (init 20) = Some w0 \<and> objs w0 0 = None \<and>
     BinaryTree_default by_key (=) 0 w0 = Some (Return () w1) \<and>
     insert_each 0 [(5, 0), (3, 0), (5, 1), (5, 0), (8, 0)] [] w1
       = Some ([(5, 0), (3, 0), (5, 1), (8, 0)], w) \<and>
     strict_weak by_key \<and> consistent by_key (=) \<and>
     exists_tree 0 (5, 1) w = Some (Return True w) \<and>
     exists_tree 0 (5, 2) w = Some (Return False w) \<and>
     exists_tree 0 (4, 0) w = Some (Return False w)"
proof -
  have "case run by_key (=) [Range 1 [(4, 0), (2, 0)]] (init 20) of None \<Rightarrow> False
        | Some w0 \<Rightarrow> objs w0 0 = None \<and>
           (case BinaryTree_default by_key (=) 0 w0 of
              Some (Return u w1) \<Rightarrow>
                (case insert_each 0 [(5, 0), (3, 0), (5, 1), (5, 0), (8, 0)] [] w1 of
                   None \<Rightarrow> False
                 | Some (ys, w) \<Rightarrow> ys = [(5, 0), (3, 0), (5, 1), (8, 0)])
            | _ \<Rightarrow> False)"
    by (simp add: client exec by_key_def)
  then obtain w0 w1 w where r: "run by_key (=) [Range 1 [(4, 0), (2, 0)]] (init 20) = Some w0"
    and o: "objs w0 0 = None"
    and d: "BinaryTree_default by_key (=) 0 w0 = Some (Return () w1)"
    and e: "insert_each 0 [(5, 0), (3, 0), (5, 1), (5, 0), (8, 0)] [] w1
              = Some ([(5, 0), (3, 0), (5, 1), (8, 0)], w)"
    by (auto split: option.splits outcome.splits)
  have s: "strict_weak by_key" unfolding strict_weak_def by_key_def by auto
  have c: "consistent by_key (=)" unfolding consistent_def by_key_def by auto
  have 1: "exists_tree 0 (5, 1) w = Some (Return True w)"
    using exists_iff_inserted [OF r o d e s c, of "(5, 1)"] by simp
  have 2: "exists_tree 0 (5, 2) w = Some (Return False w)"
    using exists_iff_inserted [OF r o d e s c, of "(5, 2)"] by simp
  have 3: "exists_tree 0 (4, 0) w = Some (Return False w)"
    using exists_iff_inserted [OF r o d e s c, of "(4, 0)"] by simp
  show ?thesis using r o d e s c 1 2 3 by blast
qed

section \<open>Failure of an assignment\<close>

text \<open>
  What a failed assignment leaves behind, in every store a client program can
  reach: the exception is the \<^verbatim>\<open>std::bad_alloc\<close> of a failed allocation, the nodes
  of the store are those that remain when the previous nodes of the target are
  released (every node of the partial copy is released as well), the count of
  the target is 0, its root is the pointer to the first node of the partial
  copy, and every other tree object is as before.
\<close>

lemma operator_assign_throws:
  assumes "run cmp eq prog (init k) = Some w" and "objs w i = Some t" and "objs w j = Some ot"
    and "operator_assign i j w = Some (Throw e w')"
  shows "i \<noteq> j \<and> e = bad_alloc \<and>
         destroy_tree (root t) w = Some (Return () (w\<lparr>cells := cells w'\<rparr>)) \<and>
         size_tree i w' = Some (Return 0 w') \<and>
         (\<exists>t'. objs w' i = Some t' \<and> (root t' = None \<or> (\<exists>a. root t' = Some a \<and> cells w' a = None))) \<and>
         (\<forall>l. l \<noteq> i \<longrightarrow> objs w' l = objs w l)"
proof -
  obtain sh where h: "holds cmp eq w sh" using run_holds [OF assms(1)] by blast
  have ij: "i \<noteq> j"
  proof
    assume "i = j"
    then have "operator_assign i j w = Some (Return () w)" by (simp add: operator_assign_self)
    then show False using assms(4) by simp
  qed
  have short: "\<not> nodes (sh j) \<le> avail w"
  proof
    assume "nodes (sh j) \<le> avail w"
    from operator_assign_ok(1) [OF h assms(2,3) ij this] assms(4) show False by simp
  qed
  let ?S = "pcopy (avail w) (fresh w) (sh j)"
  let ?w' = "w\<lparr>cells := release (addrs (sh i)) (cells w),
                fresh := fresh w + avail w, avail := 0,
                objs := (objs w)(i \<mapsto> \<lparr>root = ptr ?S, compare = cmp, equal = eq, node_count = 0\<rparr>)\<rparr>"
  have "operator_assign i j w = Some (Throw bad_alloc ?w')"
    using h assms(2,3) ij short by (rule operator_assign_fails)
  then have e: "e = bad_alloc" and w': "w' = ?w'" using assms(4) by simp_all
  have oki: "obj_ok cmp eq (cells w) t (sh i)" using h assms(2) by (rule holds_obj)
  then have d: "destroy_tree (root t) w = Some (Return () (w\<lparr>cells := release (addrs (sh i)) (cells w)\<rparr>))"
    using destroy_tree_laid [of w "sh i"] by (simp add: obj_ok_def)
  have c: "cells w' = release (addrs (sh i)) (cells w)" unfolding w' by simp
  have s: "size_tree i w' = Some (Return 0 w')" unfolding w' by (simp add: size_tree_def)
  have o: "\<forall>l. l \<noteq> i \<longrightarrow> objs w' l = objs w l" unfolding w' by simp
  have dang: "root t' = None \<or> (\<exists>a. root t' = Some a \<and> cells w' a = None)"
    if "objs w' i = Some t'" for t'
  proof (cases "?S")
    case Leaf
    then show ?thesis using that unfolding w' by auto
  next
    case (Br l a x r)
    then have "a \<in> addrs ?S" by simp
    then have "fresh w \<le> a" by simp
    then have "cells w a = None" using h by (simp add: holds_free)
    then have "cells w' a = None" unfolding c by (simp add: release_def)
    then show ?thesis using that Br unfolding w' by auto
  qed
  have "\<exists>t'. objs w' i = Some t'" unfolding w' by simp
  then have r: "\<exists>t'. objs w' i = Some t' \<and> (root t' = None \<or> (\<exists>a. root t' = Some a \<and> cells w' a = None))"
    using dang by blast
  show ?thesis using ij e d s o r unfolding c by simp
qed

text \<open>
  C4, with the trees \<open>{1}\<close> at 0 and \<open>{2, 3}\<close> at 1 in a store where one more node can
  be allocated.  The assignment of the first tree to itself returns and changes
  nothing.  The assignment of the second tree to the first releases the node
  of the first tree, allocates the copy of 2, fails to allocate the copy of 3
  and ends with \<^verbatim>\<open>std::bad_alloc\<close>.  The handler releases the copy of 2, and leaves
  \<^verbatim>\<open>root\<close> pointing to it: the target, of size 1 before, has count 0 and a
  root that points to a released node.  This is neither the state it had before
  the assignment nor a valid state: printing it, searching it, and ending its
  lifetime have undefined behaviour.
\<close>

theorem failed_assignment_leaves_dangling_root:
  "run (<) (=) [Range 0 [1], Range 1 [2, 3]] (init 4) = Some world12 \<and>
   operator_assign 0 0 world12 = Some (Return () world12) \<and>
   size_tree 0 world12 = Some (Return 1 world12) \<and>
   operator_out [] 0 world12 = Some (Return [Val 1, Text '' ''] world12) \<and>
   operator_assign 0 1 world12 = Some (Throw bad_alloc world12_failed) \<and>
   objs world12_failed 0 = Some \<lparr>root = Some 3, compare = (<), equal = (=), node_count = 0\<rparr> \<and>
   cells world12_failed 0 = None \<and> cells world12_failed 3 = None \<and>
   size_tree 0 world12_failed = Some (Return 0 world12_failed) \<and>
   operator_out [] 0 world12_failed = Some Undefined \<and>
   exists_tree 0 1 world12_failed = Some Undefined \<and>
   BinaryTree_destroy 0 world12_failed = Some Undefined"
proof -
  have "run (<) (=) [Range 0 [1], Range 1 [2, 3]] (init 4) = Some world12"
    by (simp add: client exec world12_def) (auto simp add: fun_eq_iff)
  moreover have "operator_assign 0 0 world12 = Some (Return () world12)"
    by (simp add: operator_assign_def)
  moreover have "size_tree 0 world12 = Some (Return 1 world12)"
    by (simp add: exec world12_def)
  moreover have "operator_out [] 0 world12 = Some (Return [Val 1, Text '' ''] world12)"
    by (simp add: exec world12_def)
  moreover have "operator_assign 0 1 world12 = Some (Throw bad_alloc world12_failed)"
    by (simp add: exec world12_def world12_failed_def) (auto simp add: fun_eq_iff)
  moreover have "objs world12_failed 0 =
      Some \<lparr>root = Some 3, compare = (<), equal = (=), node_count = 0\<rparr> \<and>
      cells world12_failed 0 = None \<and> cells world12_failed 3 = None"
    by (simp add: world12_failed_def)
  moreover have "size_tree 0 world12_failed = Some (Return 0 world12_failed)"
    by (simp add: exec world12_failed_def)
  moreover have "operator_out [] 0 world12_failed = Some Undefined"
    by (simp add: exec world12_failed_def)
  moreover have "exists_tree 0 1 world12_failed = Some Undefined"
    by (simp add: exec world12_failed_def)
  moreover have "BinaryTree_destroy 0 world12_failed = Some Undefined"
    by (simp add: exec world12_failed_def)
  ultimately show ?thesis by simp
qed

section \<open>Subtree extraction\<close>

text \<open>
  C6, as stated, fails in its second half.  With the ordering \<open><\<close> and an equality
  that compares the last digits, the tree of 5 and 3 holds the element 3, equal
  to 13, and \<^verbatim>\<open>subtree(13)\<close> returns an empty tree: the descent goes right at 5 and
  does not meet 3.  And with relations that agree, in a store where no node can
  be allocated, \<^verbatim>\<open>subtree(3)\<close> does not return a tree: it throws \<^verbatim>\<open>std::bad_alloc\<close>.
\<close>

theorem subtree_misses_equal_element:
  "run (<) same_unit [Range 0 [5, 3]] (init 6) = Some world53u \<and>
   operator_out [] 0 world53u = Some (Return [Val 3, Text '' '', Val 5, Text '' ''] world53u) \<and>
   same_unit 3 13 \<and>
   subtree (<) same_unit 0 13 1 world53u =
     Some (Return () (world53u\<lparr>objs := (objs world53u)
        (1 \<mapsto> \<lparr>root = None, compare = (<), equal = same_unit, node_count = 0\<rparr>)\<rparr>)) \<and>
   run (<) (=) [Range 0 [5, 3]] (init 2) = Some (world53\<lparr>avail := 0\<rparr>) \<and>
   subtree (<) (=) 0 3 1 (world53\<lparr>avail := 0\<rparr>) = Some (Throw bad_alloc (world53\<lparr>avail := 0\<rparr>))"
proof -
  have "run (<) same_unit [Range 0 [5, 3]] (init 6) = Some world53u"
    by (simp add: client exec world53u_def same_unit_def) (auto simp add: fun_eq_iff)
  moreover have "operator_out [] 0 world53u = Some (Return [Val 3, Text '' '', Val 5, Text '' ''] world53u)"
    by (simp add: exec world53u_def)
  moreover have "same_unit 3 13" by (simp add: same_unit_def)
  moreover have "subtree (<) same_unit 0 13 1 world53u =
     Some (Return () (world53u\<lparr>objs := (objs world53u)
        (1 \<mapsto> \<lparr>root = None, compare = (<), equal = same_unit, node_count = 0\<rparr>)\<rparr>))"
    by (simp add: exec world53u_def same_unit_def)
  moreover have "run (<) (=) [Range 0 [5, 3]] (init 2) = Some (world53\<lparr>avail := 0\<rparr>)"
    by (simp add: client exec world53_def tree53_def) (auto simp add: fun_eq_iff)
  moreover have "subtree (<) (=) 0 3 1 (world53\<lparr>avail := 0\<rparr>) = Some (Throw bad_alloc (world53\<lparr>avail := 0\<rparr>))"
    by (simp add: exec world53_def tree53_def)
  ultimately show ?thesis by simp
qed

text \<open>
  C6, amended.  In every store a client program can reach, for a tree \<open>i\<close> and a
  value \<open>v\<close>, let \<open>p\<close> be what \<^verbatim>\<open>find_subtree\<close> returns and \<open>k\<close> the number of nodes
  \<^verbatim>\<open>count_nodes\<close> finds from \<open>p\<close>.  When no element of the tree (no element that
  \<^verbatim>\<open>operator<<\<close> prints) is equal to \<open>v\<close>, \<^verbatim>\<open>subtree(v)\<close> returns an empty tree, with no
  root and count 0.  When the ordering is a strict weak ordering, the two
  relations are mutually consistent, some element is equal to \<open>v\<close> and \<open>k\<close> nodes
  can be allocated, \<open>p\<close> is a node whose element is equal to \<open>v\<close>, and \<^verbatim>\<open>subtree(v)\<close>
  returns a new tree that prints what the in-order traversal from \<open>p\<close> prints,
  whose count is \<open>k\<close> and is the number of its nodes, and that prints the same
  after the original tree has been destroyed; the original tree object is
  unchanged.
\<close>

theorem subtree_empty_or_copy:
  assumes "run cmp eq prog (init k0) = Some w" and "objs w i = Some t" and "objs w res = None"
  shows "\<exists>os p k. operator_out [] i w = Some (Return os w) \<and>
     find_subtree i (root t) v w = Some (Return p w) \<and>
     count_nodes p w = Some (Return k w) \<and>
     (\<not> (\<exists>x. Val x \<in> set os \<and> eq x v) \<longrightarrow>
        subtree cmp eq i v res w =
          Some (Return () (w\<lparr>objs := (objs w)
             (res \<mapsto> \<lparr>root = None, compare = cmp, equal = eq, node_count = 0\<rparr>)\<rparr>))) \<and>
     (strict_weak cmp \<and> consistent cmp eq \<and> (\<exists>x. Val x \<in> set os \<and> eq x v) \<and> k \<le> avail w \<longrightarrow>
        (\<exists>a nd sub w' t' w''.
           p = Some a \<and> cells w a = Some nd \<and> eq (data nd) v \<and>
           print_in_order p [] w = Some (Return sub w) \<and>
           subtree cmp eq i v res w = Some (Return () w') \<and>
           objs w' res = Some t' \<and> objs w' i = Some t \<and>
           operator_out [] res w' = Some (Return sub w') \<and>
           node_count t' = k \<and>
           count_nodes (root t') w' = Some (Return (node_count t') w') \<and>
           BinaryTree_destroy i w' = Some (Return () w'') \<and>
           operator_out [] res w'' = Some (Return sub w'')))"
proof -
  obtain sh where h: "holds cmp eq w sh" using run_holds [OF assms(1)] by blast
  have ok: "obj_ok cmp eq (cells w) t (sh i)" using h assms(2) by (rule holds_obj)
  then have b: "bst cmp eq (sh i)" and l: "laid (cells w) (sh i)" and r: "root t = ptr (sh i)"
    and f: "compare t = cmp" "equal t = eq"
    by (simp_all add: obj_ok_def)
  let ?os = "render (elems (sh i))"
  let ?F = "found cmp eq v (sh i)"
  have out: "operator_out [] i w = Some (Return ?os w)"
    using operator_out_holds [OF h assms(2), of "[]"] by simp
  have fs: "find_subtree i (root t) v w = Some (Return (ptr ?F) w)"
    using find_subtree_laid [OF l assms(2), of v] unfolding r f .
  have lF: "laid (cells w) ?F" using l by (rule found_laid)
  have cn: "count_nodes (ptr ?F) w = Some (Return (nodes ?F) w)"
    using lF by (rule count_nodes_laid)
  have first: "subtree cmp eq i v res w =
          Some (Return () (w\<lparr>objs := (objs w)
             (res \<mapsto> \<lparr>root = None, compare = cmp, equal = eq, node_count = 0\<rparr>)\<rparr>))"
    if "\<not> (\<exists>x. Val x \<in> set ?os \<and> eq x v)"
  proof -
    have "?F = Leaf"
      using that found_elem [of cmp eq v "sh i"] by auto
    with h assms(2,3) show ?thesis by (rule subtree_missing)
  qed
  have second: "\<exists>a nd sub w' t' w''.
           ptr ?F = Some a \<and> cells w a = Some nd \<and> eq (data nd) v \<and>
           print_in_order (ptr ?F) [] w = Some (Return sub w) \<and>
           subtree cmp eq i v res w = Some (Return () w') \<and>
           objs w' res = Some t' \<and> objs w' i = Some t \<and>
           operator_out [] res w' = Some (Return sub w') \<and>
           node_count t' = nodes ?F \<and>
           count_nodes (root t') w' = Some (Return (node_count t') w') \<and>
           BinaryTree_destroy i w' = Some (Return () w'') \<and>
           operator_out [] res w'' = Some (Return sub w'')"
    if s: "strict_weak cmp" and c: "consistent cmp eq"
      and x: "\<exists>x. Val x \<in> set ?os \<and> eq x v" and m: "nodes ?F \<le> avail w"
  proof -
    have "?F \<noteq> Leaf"
      using found_iff [OF s c b, of v] x by auto
    then obtain l' a y r' where p: "?F = Br l' a y r'"
      by (cases ?F) auto
    have pa: "ptr ?F = Some a" unfolding p by simp
    from subtree_present [OF h assms(2,3) p m] show ?thesis
      unfolding pa by blast
  qed
  show ?thesis
    by (rule exI [of _ ?os], rule exI [of _ "ptr ?F"], rule exI [of _ "nodes ?F"])
       (use out fs cn first second in blast)
qed

theorem subtree_empty_or_copy_witness:
  "\<exists>w t w7 w3. run (<) (=) [Range 0 [5, 3, 8, 1, 4 :: int]] (init 8) = Some w \<and>
     objs w 0 = Some t \<and> objs w 1 = None \<and> node_count t = 5 \<and> avail w = 3 \<and>
     strict_weak ((<) :: int \<Rightarrow> int \<Rightarrow> bool) \<and> consistent ((<) :: int \<Rightarrow> int \<Rightarrow> bool) (=) \<and>
     operator_out [] 0 w =
       Some (Return [Val 1, Text '' '', Val 3, Text '' '', Val 4, Text '' '', Val 5, Text '' '',
                     Val 8, Text '' ''] w) \<and>
     subtree (<) (=) 0 7 1 w = Some (Return () w7) \<and> size_tree 1 w7 = Some (Return 0 w7) \<and>
     find_subtree 0 (root t) 3 w = Some (Return (Some 1) w) \<and>
     count_nodes (Some 1) w = Some (Return 3 w) \<and>
     subtree (<) (=) 0 3 1 w = Some (Return () w3) \<and> size_tree 1 w3 = Some (Return 3 w3) \<and>
     operator_out [] 1 w3 = Some (Return [Val 1, Text '' '', Val 3, Text '' '', Val 4, Text '' ''] w3)"
proof -
  let ?os = "[Val 1, Text '' '', Val 3, Text '' '', Val 4, Text '' '', Val 5, Text '' '',
              Val 8, Text '' ''] :: int item list"
  let ?sub = "[Val 1, Text '' '', Val 3, Text '' '', Val 4, Text '' ''] :: int item list"
  have "case run (<) (=) [Range 0 [5, 3, 8, 1, 4 :: int]] (init 8) of None \<Rightarrow> False
        | Some w \<Rightarrow> (case objs w 0 of None \<Rightarrow> False
            | Some t \<Rightarrow> objs w 1 = None \<and> node_count t = 5 \<and> avail w = 3 \<and>
                operator_out [] 0 w = Some (Return ?os w) \<and>
                find_subtree 0 (root t) 3 w = Some (Return (Some 1) w) \<and>
                find_subtree 0 (root t) 7 w = Some (Return None w) \<and>
                count_nodes (Some 1) w = Some (Return 3 w) \<and>
                print_in_order (Some 1) [] w = Some (Return ?sub w))"
    by (simp add: client exec)
  then obtain w t where r: "run (<) (=) [Range 0 [5, 3, 8, 1, 4 :: int]] (init 8) = Some w"
    and o: "objs w 0 = Some t" and n: "objs w 1 = None" and nc: "node_count t = 5"
    and av: "avail w = 3"
    and out: "operator_out [] 0 w = Some (Return ?os w)"
    and f: "find_subtree 0 (root t) 3 w = Some (Return (Some 1) w)"
    and cn: "count_nodes (Some 1) w = Some (Return 3 w)"
    and s: "print_in_order (Some 1) [] w = Some (Return ?sub w)"
    by (auto split: option.splits)
  have sw: "strict_weak ((<) :: int \<Rightarrow> int \<Rightarrow> bool)"
    unfolding strict_weak_def by auto
  have c: "consistent ((<) :: int \<Rightarrow> int \<Rightarrow> bool) (=)"
    unfolding consistent_def by auto
  let ?w7 = "w\<lparr>objs := (objs w)(1 \<mapsto> \<lparr>root = None, compare = (<), equal = (=), node_count = 0\<rparr>)\<rparr>"
  have a7: "\<not> (\<exists>x. Val x \<in> set ?os \<and> x = 7)" by simp
  have s7: "subtree (<) (=) 0 7 1 w = Some (Return () ?w7)"
    using subtree_empty_or_copy [OF r o n, of 7] out a7 by auto
  have z7: "size_tree 1 ?w7 = Some (Return 0 ?w7)" by (simp add: size_tree_def)
  have a3: "\<exists>x. Val x \<in> set ?os \<and> x = 3" by simp
  obtain os p k where g: "operator_out [] 0 w = Some (Return os w)"
      "find_subtree 0 (root t) 3 w = Some (Return p w)"
      "count_nodes p w = Some (Return k w)"
    and imp: "strict_weak ((<) :: int \<Rightarrow> int \<Rightarrow> bool) \<and> consistent ((<) :: int \<Rightarrow> int \<Rightarrow> bool) (=) \<and>
        (\<exists>x. Val x \<in> set os \<and> x = 3) \<and> k \<le> avail w \<longrightarrow>
        (\<exists>a nd sub w' t' w''.
           p = Some a \<and> cells w a = Some nd \<and> data nd = 3 \<and>
           print_in_order p [] w = Some (Return sub w) \<and>
           subtree (<) (=) 0 3 1 w = Some (Return () w') \<and>
           objs w' 1 = Some t' \<and> objs w' 0 = Some t \<and>
           operator_out [] 1 w' = Some (Return sub w') \<and>
           node_count t' = k \<and>
           count_nodes (root t') w' = Some (Return (node_count t') w') \<and>
           BinaryTree_destroy 0 w' = Some (Return () w'') \<and>
           operator_out [] 1 w'' = Some (Return sub w''))"
    using subtree_empty_or_copy [OF r o n, of 3] by blast
  have os: "os = ?os" using g(1) out by simp
  have p: "p = Some 1" using g(2) f by simp
  have k: "k = 3" using g(3) cn unfolding p by simp
  have "k \<le> avail w" using k av by simp
  then obtain sub w3 t3 where p3: "print_in_order p [] w = Some (Return sub w)"
    and s3: "subtree (<) (=) 0 3 1 w = Some (Return () w3)"
    and t3: "objs w3 1 = Some t3" "node_count t3 = k"
    and o3: "operator_out [] 1 w3 = Some (Return sub w3)"
    using imp sw c a3 unfolding os by blast
  have "sub = ?sub" using s p3 unfolding p by simp
  then have o3': "operator_out [] 1 w3 = Some (Return ?sub w3)" using o3 by simp
  have z3: "size_tree 1 w3 = Some (Return 3 w3)" using t3 k by (simp add: size_tree_def)
  show ?thesis
    using r o n nc av sw c out s7 z7 f cn s3 z3 o3' by blast
qed

end
